theory Spec2Isabelle
  imports Main "HOL-Library.Word" "HOL-Library.Char_ord" "HOL-Library.List_Lexorder"
begin

section \<open>The value model (include/bencode.hpp)\<close>

text \<open>
  \<^verbatim>\<open>BencodeValue\<close> holds a \<^verbatim>\<open>std::variant<int64_t, std::string, List, Dict>\<close>.
  A byte is a \<^typ>\<open>char\<close>, a \<^verbatim>\<open>std::string\<close> a \<^typ>\<open>string\<close>, \<^verbatim>\<open>int64_t\<close> a 64-bit
  word read with \<^const>\<open>sint\<close>. \<^verbatim>\<open>List\<close> is a \<^verbatim>\<open>std::vector\<close>, a list. \<^verbatim>\<open>Dict\<close> is a
  \<^verbatim>\<open>std::map<std::string, BencodePtr>\<close>: a container that keeps its entries in
  ascending key order and holds each key once. It is modelled by the list of its
  entries in iteration order.
\<close>

type_synonym int64 = "64 word"

datatype BencodeValue =
    BInt int64
  | BString string
  | BList "BencodeValue list"
  | BDict "(string \<times> BencodeValue) list"

fun isInt :: "BencodeValue \<Rightarrow> bool" where
  "isInt (BInt i) = True"
| "isInt v = False"


fun isList :: "BencodeValue \<Rightarrow> bool" where
  "isList (BList l) = True"
| "isList v = False"

fun isDict :: "BencodeValue \<Rightarrow> bool" where
  "isDict (BDict d) = True"
| "isDict v = False"

subsection \<open>std::map on std::string keys\<close>

text \<open>
  \<^verbatim>\<open>std::less<std::string>\<close> compares byte by byte, each byte as an unsigned value
  (\<^verbatim>\<open>char_traits<char>::lt\<close>), a proper prefix being smaller.
\<close>

fun string_less :: "string \<Rightarrow> string \<Rightarrow> bool" where
  "string_less [] [] = False"
| "string_less [] (y # ys) = True"
| "string_less (x # xs) [] = False"
| "string_less (x # xs) (y # ys) =
     (if (of_char x :: nat) < of_char y then True
      else if (of_char y :: nat) < of_char x then False
      else string_less xs ys)"

text \<open>
  \<^verbatim>\<open>map.insert({key, value})\<close>: the entry goes to its place in key order; when the key
  is already there the map is left as it is and \<^verbatim>\<open>.second\<close> is false, here \<open>None\<close>.
\<close>

fun map_insert :: "string \<Rightarrow> 'v \<Rightarrow> (string \<times> 'v) list \<Rightarrow> (string \<times> 'v) list option" where
  "map_insert k v [] = Some [(k, v)]"
| "map_insert k v ((k', v') # d) =
     (if string_less k k' then Some ((k, v) # (k', v') # d)
      else if string_less k' k then map_option (\<lambda>d'. (k', v') # d') (map_insert k v d)
      else None)"

text \<open>\<^verbatim>\<open>map.find(key)\<close>, with \<^verbatim>\<open>end()\<close> as \<open>None\<close>.\<close>

definition map_find :: "(string \<times> 'v) list \<Rightarrow> string \<Rightarrow> 'v option" where
  "map_find d k = map_of d k"

section \<open>The decoder (src/bencode.cpp)\<close>

text \<open>
  Every failure of the decoder is a \<^verbatim>\<open>std::runtime_error\<close>; the constructors name the
  message thrown:
  \<^item> \<open>UnexpectedEnd\<close>: "Unexpected end of input"
  \<^item> \<open>InvalidValueType\<close>: "Invalid value type"
  \<^item> \<open>InvalidInteger\<close>: "Invalid integer format"
  \<^item> \<open>IntegerNoDigits\<close>: "Invalid integer format: no digits"
  \<^item> \<open>IntegerLeadingZeros\<close>: "Invalid integer format: leading zeros"
  \<^item> \<open>IntegerMissingE\<close>: "Invalid integer format: missing 'e'"
  \<^item> \<open>StringMissingColon\<close>: "Invalid string format: missing colon"
  \<^item> \<open>StringLeadingZeros\<close>: "Invalid string length: leading zeros"
  \<^item> \<open>StringNonDigit\<close>: "Invalid string length: non-digit character"
  \<^item> \<open>StringInsufficient\<close>: "Invalid string: insufficient characters"
  \<^item> \<open>InvalidList\<close>: "Invalid list format"
  \<^item> \<open>ListMissingE\<close>: "Invalid list format: missing 'e'"
  \<^item> \<open>InvalidDict\<close>: "Invalid dictionary format"
  \<^item> \<open>DictKeyNotString\<close>: "Invalid dictionary key: must be string"
  \<^item> \<open>DuplicateKey\<close>: "Duplicate dictionary key"
  \<^item> \<open>DictMissingE\<close>: "Invalid dictionary format: missing 'e'"
\<close>

datatype parse_error =
    UnexpectedEnd
  | InvalidValueType
  | InvalidInteger
  | IntegerNoDigits
  | IntegerLeadingZeros
  | IntegerMissingE
  | StringMissingColon
  | StringLeadingZeros
  | StringNonDigit
  | StringInsufficient
  | InvalidList
  | ListMissingE
  | InvalidDict
  | DictKeyNotString
  | DuplicateKey
  | DictMissingE

text \<open>
  \<^verbatim>\<open>std::isdigit\<close> in the "C" locale: the bytes \<^verbatim>\<open>'0'\<close> to \<^verbatim>\<open>'9'\<close> (48 to 57) and no other.
  (The source passes a plain \<^verbatim>\<open>char\<close>; for a byte of 128 or more, where \<^verbatim>\<open>char\<close> is signed,
  the standard leaves the call undefined, and the C library answers "not a digit".)
  \<^verbatim>\<open>c - '0'\<close> is the digit's value; it is only ever computed for a digit.
\<close>

definition isdigit :: "char \<Rightarrow> bool" where
  "isdigit c = (48 \<le> (of_char c :: nat) \<and> (of_char c :: nat) \<le> 57)"

definition digit_value :: "char \<Rightarrow> nat" where
  "digit_value c = of_char c - 48"

text \<open>
  \<^verbatim>\<open>size_t\<close> is taken to be 64 bits wide: positions and lengths are naturals, and the
  two places where the source's unsigned arithmetic can exceed the width
  (the length accumulation and \<^verbatim>\<open>pos + length\<close>) reduce modulo \<open>2 ^ 64\<close>.
\<close>

definition size_wrap :: "nat \<Rightarrow> nat" where
  "size_wrap n = n mod 2 ^ 64"

subsection \<open>parseInt\<close>

text \<open>
  The digit loop of \<^verbatim>\<open>parseInt\<close>: \<^verbatim>\<open>result = result * 10 + (input[pos] - '0')\<close> on
  \<^verbatim>\<open>int64_t\<close>, with no overflow check. Arithmetic beyond the signed range is taken to wrap
  around in two's complement, which is what the word operations do.
\<close>

function parseInt_digits :: "string \<Rightarrow> nat \<Rightarrow> int64 \<Rightarrow> int64 \<times> nat" where
  "parseInt_digits input pos result =
     (if pos < length input \<and> isdigit (input ! pos)
      then parseInt_digits input (pos + 1) (result * 10 + of_nat (digit_value (input ! pos)))
      else (result, pos))"
  by pat_completeness auto
termination
  by (relation "measure (\<lambda>(input, pos, result). length input - pos)") auto

declare parseInt_digits.simps [simp del]

definition parseInt :: "string \<Rightarrow> nat \<Rightarrow> parse_error + int64 \<times> nat" where
  "parseInt input pos0 =
     (if pos0 \<ge> length input \<or> input ! pos0 \<noteq> CHR ''i'' then Inl InvalidInteger
      else
        let pos1 = pos0 + 1;
            negative = (pos1 < length input \<and> input ! pos1 = CHR ''-'');
            pos2 = (if negative then pos1 + 1 else pos1)
        in
          if pos2 \<ge> length input \<or> \<not> isdigit (input ! pos2) then Inl IntegerNoDigits
          else if input ! pos2 = CHR ''0'' \<and> pos2 + 1 < length input
                  \<and> input ! (pos2 + 1) \<noteq> CHR ''e''
          then Inl IntegerLeadingZeros
          else
            let (result, pos3) = parseInt_digits input pos2 0
            in
              if pos3 \<ge> length input \<or> input ! pos3 \<noteq> CHR ''e'' then Inl IntegerMissingE
              else Inr (if negative then - result else result, pos3 + 1))"

subsection \<open>parseString\<close>

text \<open>\<^verbatim>\<open>string_view::find(ch, pos)\<close>: the first index from \<open>pos\<close> on that holds \<open>ch\<close>;
  \<^verbatim>\<open>npos\<close> is \<open>None\<close>.\<close>

function sv_find :: "string \<Rightarrow> char \<Rightarrow> nat \<Rightarrow> nat option" where
  "sv_find input ch pos =
     (if pos \<ge> length input then None
      else if input ! pos = ch then Some pos
      else sv_find input ch (pos + 1))"
  by pat_completeness auto
termination
  by (relation "measure (\<lambda>(input, ch, pos). length input - pos)") auto

declare sv_find.simps [simp del]

text \<open>\<^verbatim>\<open>string_view::substr(pos, count)\<close> for \<open>pos \<le> size\<close>, which holds at both calls:
  the count is cut at the end of the view.\<close>

definition substr :: "string \<Rightarrow> nat \<Rightarrow> nat \<Rightarrow> string" where
  "substr input pos count = take count (drop pos input)"

text \<open>The range-for over \<^verbatim>\<open>lengthStr\<close>, accumulating in a \<^verbatim>\<open>size_t\<close>.\<close>

fun parseString_length :: "string \<Rightarrow> nat \<Rightarrow> parse_error + nat" where
  "parseString_length [] len = Inr len"
| "parseString_length (c # cs) len =
     (if \<not> isdigit c then Inl StringNonDigit
      else parseString_length cs (size_wrap (len * 10 + digit_value c)))"

definition parseString :: "string \<Rightarrow> nat \<Rightarrow> parse_error + string \<times> nat" where
  "parseString input pos0 =
     (case sv_find input CHR '':'' pos0 of
        None \<Rightarrow> Inl StringMissingColon
      | Some colonPos \<Rightarrow>
          let lengthStr = substr input pos0 (colonPos - pos0)
          in
            if length lengthStr > 1 \<and> lengthStr ! 0 = CHR ''0'' then Inl StringLeadingZeros
            else
              (case parseString_length lengthStr 0 of
                 Inl e \<Rightarrow> Inl e
               | Inr len \<Rightarrow>
                   let pos1 = colonPos + 1
                   in
                     if size_wrap (pos1 + len) > length input then Inl StringInsufficient
                     else Inr (substr input pos1 len, size_wrap (pos1 + len))))"

subsection \<open>parseValue, parseList, parseDict\<close>

text \<open>
  \<^verbatim>\<open>parseValue\<close>, \<^verbatim>\<open>parseList\<close> and \<^verbatim>\<open>parseDict\<close> call each other, and a length prefix
  near \<open>2 ^ 64\<close> can move the cursor backwards, so the recursion is not bounded by the
  input. The model takes fuel: one unit for each call of one of the three functions and
  for each test of a loop condition. \<open>None\<close> is "fuel exhausted"; \<open>Some (Inl e)\<close> is the
  exception thrown; \<open>Some (Inr (v, pos))\<close> is the value returned and the cursor after it.
  The two \<^verbatim>\<open>while\<close> loops are \<open>parseList_loop\<close> and \<open>parseDict_loop\<close>, with the
  container built so far as an argument; the check of the closing \<^verbatim>\<open>'e'\<close> after the loop
  is their last branch.
\<close>

function parseValue :: "nat \<Rightarrow> string \<Rightarrow> nat \<Rightarrow> (parse_error + BencodeValue \<times> nat) option"
  and parseList :: "nat \<Rightarrow> string \<Rightarrow> nat \<Rightarrow> (parse_error + BencodeValue list \<times> nat) option"
  and parseList_loop :: "nat \<Rightarrow> string \<Rightarrow> nat \<Rightarrow> BencodeValue list
        \<Rightarrow> (parse_error + BencodeValue list \<times> nat) option"
  and parseDict :: "nat \<Rightarrow> string \<Rightarrow> nat
        \<Rightarrow> (parse_error + (string \<times> BencodeValue) list \<times> nat) option"
  and parseDict_loop :: "nat \<Rightarrow> string \<Rightarrow> nat \<Rightarrow> (string \<times> BencodeValue) list
        \<Rightarrow> (parse_error + (string \<times> BencodeValue) list \<times> nat) option"
where
  "parseValue 0 input pos = None"
| "parseValue (Suc fuel) input pos =
     (if pos \<ge> length input then Some (Inl UnexpectedEnd)
      else
        let c = input ! pos
        in
          if isdigit c then
            (case parseString input pos of
               Inl e \<Rightarrow> Some (Inl e)
             | Inr (s, pos') \<Rightarrow> Some (Inr (BString s, pos')))
          else if c = CHR ''i'' then
            (case parseInt input pos of
               Inl e \<Rightarrow> Some (Inl e)
             | Inr (i, pos') \<Rightarrow> Some (Inr (BInt i, pos')))
          else if c = CHR ''l'' then
            (case parseList fuel input pos of
               None \<Rightarrow> None
             | Some (Inl e) \<Rightarrow> Some (Inl e)
             | Some (Inr (l, pos')) \<Rightarrow> Some (Inr (BList l, pos')))
          else if c = CHR ''d'' then
            (case parseDict fuel input pos of
               None \<Rightarrow> None
             | Some (Inl e) \<Rightarrow> Some (Inl e)
             | Some (Inr (d, pos')) \<Rightarrow> Some (Inr (BDict d, pos')))
          else Some (Inl InvalidValueType))"
| "parseList 0 input pos = None"
| "parseList (Suc fuel) input pos =
     (if pos \<ge> length input \<or> input ! pos \<noteq> CHR ''l'' then Some (Inl InvalidList)
      else parseList_loop fuel input (pos + 1) [])"
| "parseList_loop 0 input pos result = None"
| "parseList_loop (Suc fuel) input pos result =
     (if pos < length input \<and> input ! pos \<noteq> CHR ''e'' then
        (case parseValue fuel input pos of
           None \<Rightarrow> None
         | Some (Inl e) \<Rightarrow> Some (Inl e)
         | Some (Inr (v, pos')) \<Rightarrow> parseList_loop fuel input pos' (result @ [v]))
      else if pos \<ge> length input \<or> input ! pos \<noteq> CHR ''e'' then Some (Inl ListMissingE)
      else Some (Inr (result, pos + 1)))"
| "parseDict 0 input pos = None"
| "parseDict (Suc fuel) input pos =
     (if pos \<ge> length input \<or> input ! pos \<noteq> CHR ''d'' then Some (Inl InvalidDict)
      else parseDict_loop fuel input (pos + 1) [])"
| "parseDict_loop 0 input pos result = None"
| "parseDict_loop (Suc fuel) input pos result =
     (if pos < length input \<and> input ! pos \<noteq> CHR ''e'' then
        (if \<not> isdigit (input ! pos) then Some (Inl DictKeyNotString)
         else
           (case parseString input pos of
              Inl e \<Rightarrow> Some (Inl e)
            | Inr (key, pos1) \<Rightarrow>
                (case parseValue fuel input pos1 of
                   None \<Rightarrow> None
                 | Some (Inl e) \<Rightarrow> Some (Inl e)
                 | Some (Inr (v, pos2)) \<Rightarrow>
                     (case map_insert key v result of
                        None \<Rightarrow> Some (Inl DuplicateKey)
                      | Some result' \<Rightarrow> parseDict_loop fuel input pos2 result'))))
      else if pos \<ge> length input \<or> input ! pos \<noteq> CHR ''e'' then Some (Inl DictMissingE)
      else Some (Inr (result, pos + 1)))"
  by pat_completeness auto
termination
  by (relation "measure (case_sum (case_sum (\<lambda>p. fst p) (\<lambda>p. fst p))
        (case_sum (\<lambda>p. fst p) (case_sum (\<lambda>p. fst p) (\<lambda>p. fst p))))") simp_all

text \<open>\<^verbatim>\<open>BencodeParser::parse\<close>: start at position 0, return the value, drop the cursor.\<close>

definition parse :: "nat \<Rightarrow> string \<Rightarrow> (parse_error + BencodeValue) option" where
  "parse fuel input =
     (case parseValue fuel input 0 of
        None \<Rightarrow> None
      | Some (Inl e) \<Rightarrow> Some (Inl e)
      | Some (Inr (v, pos)) \<Rightarrow> Some (Inr v))"

section \<open>The metadata layer (torrentfile.hpp, src/torrentfile.cpp)\<close>

record FileInfo =
  path :: string
  length_file :: int64

record TorrentFile =
  announce :: string
  name :: string
  pieceLength :: int64
  pieces :: "string list"
  files :: "FileInfo list"
  totalSize :: int64
  createdBy :: string
  creationDate :: int64
  singleFile :: bool

text \<open>The default member initialisers of the class: the object before the constructor body
  runs.\<close>

definition TorrentFile_init :: TorrentFile where
  "TorrentFile_init =
     \<lparr>announce = [], name = [], pieceLength = 0, pieces = [], files = [], totalSize = 0,
      createdBy = [], creationDate = 0, singleFile = True\<rparr>"

text \<open>
  The errors of the constructor: a decoder error passed on, or one of the layer's own
  \<^verbatim>\<open>std::runtime_error\<close>s:
  \<^item> \<open>RootNotDict\<close>: "Invalid torrent file: root must be a dictionary"
  \<^item> \<open>MissingInfo\<close>: "Invalid torrent file: missing or invalid info dictionary"
  \<^item> \<open>MissingPieceLength\<close>: "Invalid torrent file: missing piece length"
  \<^item> \<open>MissingPieces\<close>: "Invalid torrent file: missing pieces"
  \<^item> \<open>MissingLengthOrFiles\<close>: "Invalid torrent file: missing length or files"
\<close>

datatype torrent_error =
    ParseError parse_error
  | RootNotDict
  | MissingInfo
  | MissingPieceLength
  | MissingPieces
  | MissingLengthOrFiles

text \<open>
  The layer reads a field with \<^verbatim>\<open>auto it = dict.find(key); it != dict.end() &&
  it->second->isX()\<close> and then \<^verbatim>\<open>it->second->getX()\<close>. The four lookups give the value read,
  or \<open>None\<close> when the condition is false.
\<close>

definition find_int :: "(string \<times> BencodeValue) list \<Rightarrow> string \<Rightarrow> int64 option" where
  "find_int dict key = (case map_find dict key of Some (BInt i) \<Rightarrow> Some i | _ \<Rightarrow> None)"

definition find_string :: "(string \<times> BencodeValue) list \<Rightarrow> string \<Rightarrow> string option" where
  "find_string dict key = (case map_find dict key of Some (BString s) \<Rightarrow> Some s | _ \<Rightarrow> None)"

definition find_list :: "(string \<times> BencodeValue) list \<Rightarrow> string \<Rightarrow> BencodeValue list option" where
  "find_list dict key = (case map_find dict key of Some (BList l) \<Rightarrow> Some l | _ \<Rightarrow> None)"

definition find_dict ::
  "(string \<times> BencodeValue) list \<Rightarrow> string \<Rightarrow> (string \<times> BencodeValue) list option" where
  "find_dict dict key = (case map_find dict key of Some (BDict d) \<Rightarrow> Some d | _ \<Rightarrow> None)"

subsection \<open>parseFilesList\<close>

text \<open>
  The inner loop of \<^verbatim>\<open>parseFilesList\<close> over \<^verbatim>\<open>pathList\<close>, with the index \<open>i\<close> and the
  \<^verbatim>\<open>path\<close> built so far: a component that is not a string is passed over (the index
  still advances), a string is appended, after a \<^verbatim>\<open>"/"\<close> when \<open>i > 0\<close>.
\<close>

fun parseFilesList_path :: "BencodeValue list \<Rightarrow> nat \<Rightarrow> string \<Rightarrow> string" where
  "parseFilesList_path [] i p = p"
| "parseFilesList_path (c # cs) i p =
     (case c of
        BString s \<Rightarrow> parseFilesList_path cs (i + 1) ((if i > 0 then p @ ''/'' else p) @ s)
      | _ \<Rightarrow> parseFilesList_path cs (i + 1) p)"

text \<open>The outer loop, on the object under construction; each \<^verbatim>\<open>continue\<close> goes on with the
  rest of the list and the object unchanged.\<close>

fun parseFilesList :: "BencodeValue list \<Rightarrow> TorrentFile \<Rightarrow> TorrentFile" where
  "parseFilesList [] t = t"
| "parseFilesList (filePtr # rest) t =
     (case filePtr of
        BDict fileDict \<Rightarrow>
          (case find_int fileDict ''length'' of
             None \<Rightarrow> parseFilesList rest t
           | Some len \<Rightarrow>
               (case find_list fileDict ''path'' of
                  None \<Rightarrow> parseFilesList rest t
                | Some pathList \<Rightarrow>
                    parseFilesList rest
                      (t\<lparr>files := files t @ [\<lparr>path = parseFilesList_path pathList 0 [],
                                                length_file = len\<rparr>],
                         totalSize := totalSize t + len\<rparr>)))
      | _ \<Rightarrow> parseFilesList rest t)"

subsection \<open>parseInfoDict\<close>

text \<open>The loop over \<^verbatim>\<open>piecesStr\<close>: \<^verbatim>\<open>for (size_t i = 0; i < piecesStr.length(); i += 20)
  pieces.push_back(piecesStr.substr(i, 20))\<close>. The index is a natural number: no
  \<^verbatim>\<open>std::string\<close> is long enough for \<^verbatim>\<open>i += 20\<close> to exceed \<^verbatim>\<open>size_t\<close>.\<close>

function parseInfoDict_pieces :: "string \<Rightarrow> nat \<Rightarrow> string list \<Rightarrow> string list" where
  "parseInfoDict_pieces piecesStr i ps =
     (if i < length piecesStr
      then parseInfoDict_pieces piecesStr (i + 20) (ps @ [substr piecesStr i 20])
      else ps)"
  by pat_completeness auto
termination
  by (relation "measure (\<lambda>(piecesStr, i, ps). length piecesStr - i)") auto

declare parseInfoDict_pieces.simps [simp del]

definition parseInfoDict ::
  "(string \<times> BencodeValue) list \<Rightarrow> TorrentFile \<Rightarrow> torrent_error + TorrentFile" where
  "parseInfoDict infoDict t0 =
     (case find_int infoDict ''piece length'' of
        None \<Rightarrow> Inl MissingPieceLength
      | Some pl \<Rightarrow>
          let t1 = t0\<lparr>pieceLength := pl\<rparr>
          in
            (case find_string infoDict ''pieces'' of
               None \<Rightarrow> Inl MissingPieces
             | Some piecesStr \<Rightarrow>
                 let t2 = t1\<lparr>pieces := parseInfoDict_pieces piecesStr 0 (pieces t1)\<rparr>;
                     t3 = (case find_string infoDict ''name'' of
                             None \<Rightarrow> t2
                           | Some n \<Rightarrow> t2\<lparr>name := n\<rparr>)
                 in
                   (case find_int infoDict ''length'' of
                      Some len \<Rightarrow>
                        Inr (t3\<lparr>singleFile := True, totalSize := len,
                                files := files t3 @ [\<lparr>path = name t3, length_file = len\<rparr>]\<rparr>)
                    | None \<Rightarrow>
                        (case find_list infoDict ''files'' of
                           Some filesList \<Rightarrow>
                             Inr (parseFilesList filesList (t3\<lparr>singleFile := False\<rparr>))
                         | None \<Rightarrow> Inl MissingLengthOrFiles))))"

subsection \<open>parseTorrentDict and the constructor\<close>

definition parseTorrentDict ::
  "(string \<times> BencodeValue) list \<Rightarrow> TorrentFile \<Rightarrow> torrent_error + TorrentFile" where
  "parseTorrentDict dict t0 =
     (let t1 = (case find_string dict ''announce'' of
                  None \<Rightarrow> t0
                | Some s \<Rightarrow> t0\<lparr>announce := s\<rparr>);
          t2 = (case find_int dict ''creation date'' of
                  None \<Rightarrow> t1
                | Some i \<Rightarrow> t1\<lparr>creationDate := i\<rparr>);
          t3 = (case find_string dict ''created by'' of
                  None \<Rightarrow> t2
                | Some s \<Rightarrow> t2\<lparr>createdBy := s\<rparr>)
      in
        (case find_dict dict ''info'' of
           None \<Rightarrow> Inl MissingInfo
         | Some infoDict \<Rightarrow> parseInfoDict infoDict t3))"

text \<open>
  The constructor \<^verbatim>\<open>TorrentFile(filepath)\<close>, from the bytes that \<^verbatim>\<open>readTorrentFile\<close> returned
  (reading the file is outside the model). \<open>None\<close> is the decoder out of fuel.
\<close>

definition TorrentFile_of :: "nat \<Rightarrow> string \<Rightarrow> (torrent_error + TorrentFile) option" where
  "TorrentFile_of fuel torrentData =
     (case parse fuel torrentData of
        None \<Rightarrow> None
      | Some (Inl e) \<Rightarrow> Some (Inl (ParseError e))
      | Some (Inr (BDict dict)) \<Rightarrow> Some (parseTorrentDict dict TorrentFile_init)
      | Some (Inr _) \<Rightarrow> Some (Inl RootNotDict))"

section \<open>The encodings the specification speaks of\<close>

text \<open>
  The repository has no encoder. To state what the decoder does on "the encoding of"
  a value, the grammar of section 4.2 of the specification is written here as a syntax
  tree and the bytes it stands for. These definitions follow the specification's words;
  they are not part of the program. A dictionary node lists its entries in the order of
  the bytes.
\<close>

definition spec_digit_char :: "nat \<Rightarrow> char" where
  "spec_digit_char d = char_of (48 + d)"

text \<open>The decimal digits of a natural number, without leading zeros.\<close>

fun spec_dec_digits :: "nat \<Rightarrow> string" where
  "spec_dec_digits n =
     (if n < 10 then [spec_digit_char n] else spec_dec_digits (n div 10) @ [spec_digit_char (n mod 10)])"

declare spec_dec_digits.simps [simp del]

text \<open>"the decimal digits of \<open>n\<close>, with a \<open>-\<close> prefix if negative"\<close>

definition spec_int_literal :: "int \<Rightarrow> string" where
  "spec_int_literal n = (if n < 0 then CHR ''-'' # spec_dec_digits (nat (- n)) else spec_dec_digits (nat n))"

text \<open>"\<open>i\<close> + decimal digits of \<open>n\<close> + \<open>e\<close>"\<close>

definition spec_encode_int :: "int \<Rightarrow> string" where
  "spec_encode_int n = CHR ''i'' # spec_int_literal n @ ''e''"

text \<open>"the decimal digits of \<open>L\<close>, a \<open>:\<close>, and then \<open>B\<close>", \<open>L\<close> being the length of \<open>B\<close>\<close>

definition spec_encode_string :: "string \<Rightarrow> string" where
  "spec_encode_string b = spec_dec_digits (length b) @ CHR '':'' # b"

datatype spec_tree =
    TInt int
  | TStr string
  | TList "spec_tree list"
  | TDict "(string \<times> spec_tree) list"

fun spec_encode :: "spec_tree \<Rightarrow> string" where
  "spec_encode (TInt n) = spec_encode_int n"
| "spec_encode (TStr b) = spec_encode_string b"
| "spec_encode (TList ts) = CHR ''l'' # concat (map spec_encode ts) @ ''e''"
| "spec_encode (TDict kts) =
     CHR ''d'' # concat (map (\<lambda>(k, t). spec_encode_string k @ spec_encode t) kts) @ ''e''"

text \<open>
  A tree is a valid value when its integers are 64-bit and no dictionary has a key
  twice. The order of the keys is free.
\<close>

fun spec_valid :: "spec_tree \<Rightarrow> bool" where
  "spec_valid (TInt n) = (- (2 ^ 63) \<le> n \<and> n < 2 ^ 63)"
| "spec_valid (TStr b) = True"
| "spec_valid (TList ts) = list_all spec_valid ts"
| "spec_valid (TDict kts) = (distinct (map fst kts) \<and> list_all (\<lambda>(k, t). spec_valid t) kts)"

text \<open>
  The value a tree denotes in the program's value model: a \<^verbatim>\<open>std::map\<close> filled by
  inserting the entries in their order (inserting a key that is there changes nothing).
\<close>

fun map_insert_all :: "(string \<times> 'v) list \<Rightarrow> (string \<times> 'v) list \<Rightarrow> (string \<times> 'v) list" where
  "map_insert_all [] d = d"
| "map_insert_all ((k, v) # es) d =
     map_insert_all es (case map_insert k v d of None \<Rightarrow> d | Some d' \<Rightarrow> d')"

fun spec_value :: "spec_tree \<Rightarrow> BencodeValue" where
  "spec_value (TInt n) = BInt (word_of_int n)"
| "spec_value (TStr b) = BString b"
| "spec_value (TList ts) = BList (map spec_value ts)"
| "spec_value (TDict kts) = BDict (map_insert_all (map (\<lambda>(k, t). (k, spec_value t)) kts) [])"

text \<open>
  "Decoding the bytes returns \<open>r\<close>": with enough fuel the model returns \<open>r\<close>, so the program
  returns and \<open>r\<close> is what it returns or throws.
\<close>

definition returns :: "(nat \<Rightarrow> 'a option) \<Rightarrow> 'a \<Rightarrow> bool" where
  "returns run r = (\<exists>N. \<forall>fuel\<ge>N. run fuel = Some r)"

text \<open>The bytes of the entries of a dictionary node, and the entries it denotes.\<close>

definition spec_encode_entries :: "(string \<times> spec_tree) list \<Rightarrow> string" where
  "spec_encode_entries kts = concat (map (\<lambda>(k, t). spec_encode_string k @ spec_encode t) kts)"

definition spec_entries :: "(string \<times> spec_tree) list \<Rightarrow> (string \<times> BencodeValue) list" where
  "spec_entries kts = map (\<lambda>(k, t). (k, spec_value t)) kts"

text \<open>The invariant of a \<^verbatim>\<open>std::map\<close>: the keys strictly ascending in iteration order.\<close>

definition keys_ascending :: "(string \<times> 'v) list \<Rightarrow> bool" where
  "keys_ascending d = sorted_wrt string_less (map fst d)"

subsection \<open>File entries\<close>




section \<open>Digits and decimal numerals\<close>

lemma isdigit_digit_char: "d < 10 \<Longrightarrow> isdigit (spec_digit_char d)"
  by (simp add: isdigit_def spec_digit_char_def)

lemma digit_value_digit_char: "d < 10 \<Longrightarrow> digit_value (spec_digit_char d) = d"
  by (simp add: digit_value_def spec_digit_char_def)

lemma isdigit_not_marker:
  "isdigit c \<Longrightarrow> c \<noteq> CHR '':'' \<and> c \<noteq> CHR ''e'' \<and> c \<noteq> CHR ''-'' \<and> c \<noteq> CHR ''i''
     \<and> c \<noteq> CHR ''l'' \<and> c \<noteq> CHR ''d''"
  by (auto simp add: isdigit_def)

lemma spec_digit_char_eq_zero:
  assumes "d < 10" and "spec_digit_char d = CHR ''0''"
  shows "d = 0"
proof -
  from assms(2) have "(of_char (spec_digit_char d) :: nat) = of_char CHR ''0''" by simp
  with assms(1) show ?thesis by (simp add: spec_digit_char_def)
qed

lemma spec_dec_digits_not_Nil: "spec_dec_digits n \<noteq> []"
  by (subst spec_dec_digits.simps) simp

lemma spec_dec_digits_isdigit: "list_all isdigit (spec_dec_digits n)"
proof (induction n rule: spec_dec_digits.induct)
  case (1 n)
  show ?case
  proof (cases "n < 10")
    case True
    then show ?thesis by (subst spec_dec_digits.simps) (simp add: isdigit_digit_char)
  next
    case False
    with 1 show ?thesis by (subst spec_dec_digits.simps) (simp add: isdigit_digit_char)
  qed
qed

lemma hd_dec_digits_zero: "hd (spec_dec_digits n) = CHR ''0'' \<Longrightarrow> n = 0"
proof (induction n rule: spec_dec_digits.induct)
  case (1 n)
  show ?case
  proof (cases "n < 10")
    case True
    with 1(2) show ?thesis by (simp add: spec_dec_digits.simps [of n] spec_digit_char_eq_zero)
  next
    case False
    with 1(2) have "hd (spec_dec_digits (n div 10)) = CHR ''0''"
      by (simp add: spec_dec_digits.simps [of n] spec_dec_digits_not_Nil)
    with 1(1) False have "n div 10 = 0" by simp
    with False show ?thesis by simp
  qed
qed

lemma spec_digit_char_0: "spec_digit_char 0 = CHR ''0''"
  unfolding spec_digit_char_def by code_simp

lemma spec_dec_digits_0: "spec_dec_digits 0 = ''0''"
  by (simp add: spec_dec_digits.simps spec_digit_char_0)

lemma spec_dec_digits_snoc:
  "10 \<le> n \<Longrightarrow> spec_dec_digits n = spec_dec_digits (n div 10) @ [spec_digit_char (n mod 10)]"
  by (subst spec_dec_digits.simps) simp

subsection \<open>Reading at the cursor\<close>

lemma nth_cursor: "(pre @ c # rest) ! length pre = c"
  by simp

lemma sv_find_skip:
  "ch \<notin> set ds \<Longrightarrow> sv_find (pre @ ds @ ch # rest) ch (length pre) = Some (length pre + length ds)"
proof (induction ds arbitrary: pre)
  case Nil
  show ?case by (subst sv_find.simps) simp
next
  case (Cons d ds)
  from Cons.prems have "ch \<notin> set ds" and "d \<noteq> ch" by auto
  from Cons.IH [OF \<open>ch \<notin> set ds\<close>, of "pre @ [d]"] \<open>d \<noteq> ch\<close>
  show ?case by (subst sv_find.simps) simp
qed

lemma substr_cursor: "substr (pre @ ds @ rest) (length pre) (length ds) = ds"
  by (simp add: substr_def)

lemma parseString_length_snoc:
  "parseString_length (ds @ [c]) len =
     (case parseString_length ds len of
        Inl e \<Rightarrow> Inl e
      | Inr l \<Rightarrow> if \<not> isdigit c then Inl StringNonDigit
                 else Inr (size_wrap (l * 10 + digit_value c)))"
  by (induction ds arbitrary: len) auto

lemma size_wrap_step: "size_wrap (size_wrap a * 10 + b) = size_wrap (a * 10 + b)"
  unfolding size_wrap_def by (metis mod_add_left_eq mod_mult_left_eq)

lemma parseString_length_dec_digits: "parseString_length (spec_dec_digits n) 0 = Inr (size_wrap n)"
proof (induction n rule: spec_dec_digits.induct)
  case (1 n)
  show ?case
  proof (cases "n < 10")
    case True
    then show ?thesis
      by (simp add: spec_dec_digits.simps [of n] isdigit_digit_char digit_value_digit_char)
  next
    case False
    with 1 have "parseString_length (spec_dec_digits (n div 10)) 0 = Inr (size_wrap (n div 10))"
      by simp
    with False show ?thesis
      by (simp add: spec_dec_digits_snoc parseString_length_snoc isdigit_digit_char
          digit_value_digit_char size_wrap_step)
  qed
qed

lemma parseInt_digits_foldl:
  assumes "list_all isdigit ds" and "rest = [] \<or> \<not> isdigit (hd rest)"
  shows "parseInt_digits (pre @ ds @ rest) (length pre) acc =
           (foldl (\<lambda>r c. r * 10 + of_nat (digit_value c)) acc ds, length pre + length ds)"
  using assms(1)
proof (induction ds arbitrary: pre acc)
  case Nil
  from assms(2) show ?case
    by (subst parseInt_digits.simps) (cases rest; simp)
next
  case (Cons d ds)
  from Cons.prems have d: "isdigit d" and ds: "list_all isdigit ds" by simp_all
  from Cons.IH [OF ds, of "pre @ [d]"] d
  show ?case by (subst parseInt_digits.simps) simp
qed

lemma foldl_dec_digits:
  "foldl (\<lambda>r c. r * 10 + of_nat (digit_value c)) (0 :: int64) (spec_dec_digits n) = of_nat n"
proof (induction n rule: spec_dec_digits.induct)
  case (1 n)
  show ?case
  proof (cases "n < 10")
    case True
    then show ?thesis by (simp add: spec_dec_digits.simps [of n] digit_value_digit_char)
  next
    case False
    with 1 have "foldl (\<lambda>r c. r * 10 + of_nat (digit_value c)) (0 :: int64)
        (spec_dec_digits (n div 10)) = of_nat (n div 10)" by simp
    moreover have "(of_nat (n div 10) :: int64) * 10 + of_nat (n mod 10) = of_nat n"
    proof -
      have "(of_nat (n div 10) :: int64) * 10 + of_nat (n mod 10)
          = of_nat (n div 10 * 10 + n mod 10)"
        by (simp only: of_nat_add of_nat_mult of_nat_numeral)
      also have "n div 10 * 10 + n mod 10 = n" by simp
      finally show ?thesis .
    qed
    ultimately show ?thesis using False
      by (simp add: spec_dec_digits_snoc digit_value_digit_char)
  qed
qed


lemma size_wrap_small: "n < 2 ^ 64 \<Longrightarrow> size_wrap n = n"
  by (simp add: size_wrap_def)

lemma spec_dec_digits_no_leading_zero:
  "\<not> (1 < length (spec_dec_digits n) \<and> spec_dec_digits n ! 0 = CHR ''0'')"
proof
  assume a: "1 < length (spec_dec_digits n) \<and> spec_dec_digits n ! 0 = CHR ''0''"
  then have "hd (spec_dec_digits n) = CHR ''0''"
    by (simp add: hd_conv_nth spec_dec_digits_not_Nil)
  then have "n = 0" by (rule hd_dec_digits_zero)
  with a show False by (simp add: spec_dec_digits_0)
qed

lemma colon_not_in_dec_digits: "CHR '':'' \<notin> set (spec_dec_digits n)"
  using spec_dec_digits_isdigit [of n] isdigit_not_marker by (auto simp add: list_all_iff)

lemma hd_dec_digits_isdigit: "isdigit (hd (spec_dec_digits n))"
  using spec_dec_digits_isdigit [of n] spec_dec_digits_not_Nil [of n]
  by (cases "spec_dec_digits n") simp_all

lemma parseString_spec_encode_string:
  assumes "length (pre @ spec_encode_string b @ rest) < 2 ^ 64"
  shows "parseString (pre @ spec_encode_string b @ rest) (length pre) =
           Inr (b, length pre + length (spec_encode_string b))"
proof -
  define ds where "ds = spec_dec_digits (length b)"
  define input where "input = pre @ spec_encode_string b @ rest"
  define colonPos where "colonPos = length pre + length ds"
  define pos1 where "pos1 = colonPos + 1"
  have shape: "input = pre @ ds @ CHR '':'' # (b @ rest)"
    by (simp add: input_def spec_encode_string_def ds_def)
  have shape': "input = (pre @ ds @ [CHR '':'']) @ b @ rest"
    by (simp add: shape)
  have len: "length input = pos1 + length b + length rest"
    by (simp add: shape pos1_def colonPos_def)
  from assms have small: "length input < 2 ^ 64" by (simp add: input_def)
  have colon: "sv_find input CHR '':'' (length pre) = Some colonPos"
    unfolding shape ds_def colonPos_def by (rule sv_find_skip) (rule colon_not_in_dec_digits)
  have "colonPos - length pre = length ds" by (simp add: colonPos_def)
  then have lengthStr: "substr input (length pre) (colonPos - length pre) = ds"
    unfolding shape by (simp only: substr_cursor)
  have lz: "\<not> (1 < length ds \<and> ds ! 0 = CHR ''0'')"
    unfolding ds_def by (rule spec_dec_digits_no_leading_zero)
  have "size_wrap (length b) = length b"
    using small len by (intro size_wrap_small) simp
  then have plen: "parseString_length ds 0 = Inr (length b)"
    by (simp add: ds_def parseString_length_dec_digits)
  have wrap: "size_wrap (pos1 + length b) = pos1 + length b"
    using small len by (intro size_wrap_small) simp
  have fits: "\<not> length input < pos1 + length b"
    by (simp add: len)
  have "length (pre @ ds @ [CHR '':'']) = pos1"
    by (simp add: pos1_def colonPos_def)
  then have content: "substr input pos1 (length b) = b"
    using substr_cursor [of "pre @ ds @ [CHR '':'']" b rest] by (simp only: shape')
  have "parseString input (length pre) = Inr (b, pos1 + length b)"
    unfolding parseString_def
    by (simp only: colon option.case Let_def lengthStr lz if_False plen sum.case
        pos1_def [symmetric] wrap fits content)
  moreover have "pos1 + length b = length pre + length (spec_encode_string b)"
    by (simp add: pos1_def colonPos_def spec_encode_string_def ds_def)
  ultimately show ?thesis
    by (simp only: input_def)
qed

subsection \<open>parseInt on a literal\<close>

lemma isdigit_e: "\<not> isdigit CHR ''e''"
  by (simp add: isdigit_def)

lemma parseInt_unsigned:
  assumes ds: "list_all isdigit (d # ds)"
    and lz: "d = CHR ''0'' \<Longrightarrow> ds = []"
  shows "parseInt (pre @ CHR ''i'' # (d # ds) @ CHR ''e'' # rest) (length pre) =
           Inr (foldl (\<lambda>r c. r * 10 + of_nat (digit_value c)) 0 (d # ds),
                length pre + length (d # ds) + 2)"
proof -
  from ds have d: "isdigit d" by simp
  then have dm: "d \<noteq> CHR ''-''" using isdigit_not_marker by blast
  have loop: "parseInt_digits (pre @ CHR ''i'' # d # ds @ CHR ''e'' # rest) (Suc (length pre)) 0 =
      (foldl (\<lambda>r c. r * 10 + of_nat (digit_value c)) 0 (d # ds), Suc (length pre) + length (d # ds))"
    using parseInt_digits_foldl [OF ds, of "CHR ''e'' # rest" "pre @ [CHR ''i'']" 0]
    by (simp add: isdigit_e)
  show ?thesis
    unfolding parseInt_def using d dm lz loop
    by (auto simp add: nth_append Let_def)
qed

lemma parseInt_signed:
  assumes ds: "list_all isdigit (d # ds)"
    and lz: "d = CHR ''0'' \<Longrightarrow> ds = []"
  shows "parseInt (pre @ CHR ''i'' # CHR ''-'' # (d # ds) @ CHR ''e'' # rest) (length pre) =
           Inr (- foldl (\<lambda>r c. r * 10 + of_nat (digit_value c)) 0 (d # ds),
                length pre + length (d # ds) + 3)"
proof -
  from ds have d: "isdigit d" by simp
  have loop: "parseInt_digits (pre @ CHR ''i'' # CHR ''-'' # d # ds @ CHR ''e'' # rest)
        (Suc (Suc (length pre))) 0 =
      (foldl (\<lambda>r c. r * 10 + of_nat (digit_value c)) 0 (d # ds),
       Suc (Suc (length pre)) + length (d # ds))"
    using parseInt_digits_foldl [OF ds, of "CHR ''e'' # rest" "pre @ [CHR ''i'', CHR ''-'']" 0]
    by (simp add: isdigit_e)
  show ?thesis
    unfolding parseInt_def using d lz loop
    by (auto simp add: nth_append Let_def)
qed

lemma spec_int_literal_cases:
  obtains d ds where "n < 0" "spec_int_literal n = CHR ''-'' # d # ds" "d # ds = spec_dec_digits (nat (- n))"
  | d ds where "0 \<le> n" "spec_int_literal n = d # ds" "d # ds = spec_dec_digits (nat n)"
proof (cases "n < 0")
  case True
  obtain d ds where "spec_dec_digits (nat (- n)) = d # ds"
    using spec_dec_digits_not_Nil by (cases "spec_dec_digits (nat (- n))") auto
  with True that(1) show ?thesis by (simp add: spec_int_literal_def)
next
  case False
  obtain d ds where "spec_dec_digits (nat n) = d # ds"
    using spec_dec_digits_not_Nil by (cases "spec_dec_digits (nat n)") auto
  with False that(2) show ?thesis by (simp add: spec_int_literal_def)
qed

lemma spec_dec_digits_leading_zero: "spec_dec_digits m = CHR ''0'' # ds \<Longrightarrow> ds = []"
proof -
  assume a: "spec_dec_digits m = CHR ''0'' # ds"
  then have "hd (spec_dec_digits m) = CHR ''0''" by simp
  then have "m = 0" by (rule hd_dec_digits_zero)
  with a show ?thesis by (simp add: spec_dec_digits_0)
qed

lemma parseInt_spec_encode_int:
  "parseInt (pre @ spec_encode_int n @ rest) (length pre) =
     Inr (word_of_int n, length pre + length (spec_encode_int n))"
proof (cases n rule: spec_int_literal_cases)
  case (1 d ds)
  have dig: "list_all isdigit (d # ds)" unfolding 1(3) by (rule spec_dec_digits_isdigit)
  have lz: "d = CHR ''0'' \<Longrightarrow> ds = []" using 1(3) spec_dec_digits_leading_zero [of "nat (- n)" ds] by simp
  have val: "- foldl (\<lambda>r c. r * 10 + of_nat (digit_value c)) (0 :: int64) (d # ds) = word_of_int n"
    unfolding 1(3) foldl_dec_digits using 1(1) by simp
  from parseInt_signed [OF dig lz, of pre rest] show ?thesis
    by (simp add: spec_encode_int_def 1(2) val del: foldl_Cons)
next
  case (2 d ds)
  have dig: "list_all isdigit (d # ds)" unfolding 2(3) by (rule spec_dec_digits_isdigit)
  have lz: "d = CHR ''0'' \<Longrightarrow> ds = []" using 2(3) spec_dec_digits_leading_zero [of "nat n" ds] by simp
  have val: "foldl (\<lambda>r c. r * 10 + of_nat (digit_value c)) (0 :: int64) (d # ds) = word_of_int n"
    unfolding 2(3) foldl_dec_digits using 2(1) by simp
  from parseInt_unsigned [OF dig lz, of pre rest] show ?thesis
    by (simp add: spec_encode_int_def 2(2) val del: foldl_Cons)
qed

lemma spec_encode_int_head: "\<exists>tl. spec_encode_int n = CHR ''i'' # tl"
  by (simp add: spec_encode_int_def)

lemma parseValue_spec_encode_int:
  "parseValue (Suc fuel) (pre @ spec_encode_int n @ rest) (length pre) =
     Some (Inr (BInt (word_of_int n), length pre + length (spec_encode_int n)))"
proof -
  obtain tl where tl: "spec_encode_int n = CHR ''i'' # tl"
    using spec_encode_int_head by blast
  have c: "(pre @ spec_encode_int n @ rest) ! length pre = CHR ''i''"
    by (simp add: tl)
  have l: "\<not> length (pre @ spec_encode_int n @ rest) \<le> length pre"
    by (simp add: tl)
  show ?thesis
    by (simp only: parseValue.simps l if_False Let_def c parseInt_spec_encode_int)
      (simp add: isdigit_def)
qed

lemma spec_encode_string_head: "\<exists>c tl. spec_encode_string b = c # tl \<and> isdigit c"
proof -
  obtain c tl where "spec_dec_digits (length b) = c # tl"
    using spec_dec_digits_not_Nil by (cases "spec_dec_digits (length b)") auto
  moreover from this have "isdigit c" using hd_dec_digits_isdigit [of "length b"] by simp
  ultimately show ?thesis by (simp add: spec_encode_string_def)
qed

lemma parseValue_spec_encode_string:
  assumes "length (pre @ spec_encode_string b @ rest) < 2 ^ 64"
  shows "parseValue (Suc fuel) (pre @ spec_encode_string b @ rest) (length pre) =
     Some (Inr (BString b, length pre + length (spec_encode_string b)))"
proof -
  obtain c tl where tl: "spec_encode_string b = c # tl" and d: "isdigit c"
    using spec_encode_string_head by blast
  have c: "(pre @ spec_encode_string b @ rest) ! length pre = c"
    by (simp add: tl)
  have l: "\<not> length (pre @ spec_encode_string b @ rest) \<le> length pre"
    by (simp add: tl)
  show ?thesis
    by (simp only: parseValue.simps l if_False Let_def c d if_True
        parseString_spec_encode_string [OF assms] sum.case prod.case)
qed

lemma sint_word_of_int_64:
  "- (2 ^ 63) \<le> n \<Longrightarrow> n < 2 ^ 63 \<Longrightarrow> sint (word_of_int n :: int64) = n"
  by (simp add: sint_sbintrunc' signed_take_bit_int_eq_self)

lemma parse_as_parseValue:
  "parseValue fuel input 0 = Some (Inr (v, pos)) \<Longrightarrow> parse fuel input = Some (Inr v)"
  "parseValue fuel input 0 = Some (Inl e) \<Longrightarrow> parse fuel input = Some (Inl e)"
  by (simp_all add: parse_def)

lemma spec_digit_char_table:
  "spec_digit_char 0 = CHR ''0''" "spec_digit_char 1 = CHR ''1''" "spec_digit_char 2 = CHR ''2''"
  "spec_digit_char 3 = CHR ''3''" "spec_digit_char 4 = CHR ''4''" "spec_digit_char 5 = CHR ''5''"
  "spec_digit_char 6 = CHR ''6''" "spec_digit_char 7 = CHR ''7''" "spec_digit_char 8 = CHR ''8''"
  "spec_digit_char 9 = CHR ''9''"
  unfolding spec_digit_char_def by code_simp+

lemmas spec_encode_eval =
  spec_encode_int_def spec_encode_string_def spec_int_literal_def spec_dec_digits.simps spec_digit_char_table

lemmas decoder_eval =
  parse_def parseString_def parseInt_def Let_def sv_find.simps parseInt_digits.simps
  substr_def isdigit_def digit_value_def size_wrap_def

section \<open>Integers\<close>

text \<open>
  Claim C2. For every 64-bit integer \<open>n\<close>, decoding \<open>i\<close>, the decimal digits of \<open>n\<close> (with a
  \<open>-\<close> prefix if \<open>n\<close> is negative) and \<open>e\<close> succeeds and yields exactly \<open>n\<close>: the word
  returned reads as \<open>n\<close>. \<^verbatim>\<open>i0e\<close> decodes to 0, and \<^verbatim>\<open>i-0e\<close> is accepted and decodes to 0.
  No fuel is needed beyond the one call of \<^verbatim>\<open>parseValue\<close>.
\<close>

theorem decode_int_canonical:
  "(- (2 ^ 63) \<le> n \<and> n < 2 ^ 63 \<longrightarrow>
      parse (Suc fuel) (spec_encode_int n) = Some (Inr (BInt (word_of_int n)))
      \<and> sint (word_of_int n :: int64) = n)
   \<and> parse (Suc fuel) ''i0e'' = Some (Inr (BInt 0))
   \<and> parse (Suc fuel) ''i-0e'' = Some (Inr (BInt 0))"
proof (intro conjI impI)
  assume "- (2 ^ 63) \<le> n \<and> n < 2 ^ 63"
  then show "sint (word_of_int n :: int64) = n"
    by (simp add: sint_word_of_int_64)
next
  show "parse (Suc fuel) (spec_encode_int n) = Some (Inr (BInt (word_of_int n)))"
    using parseValue_spec_encode_int [of fuel "[]" n "[]"]
    by (simp add: parse_def)
next
  show "parse (Suc fuel) ''i0e'' = Some (Inr (BInt 0))"
    by (simp add: decoder_eval)
next
  show "parse (Suc fuel) ''i-0e'' = Some (Inr (BInt 0))"
    by (simp add: decoder_eval)
qed

theorem decode_int_canonical_witness:
  "(- (2 ^ 63) \<le> (- 42 :: int) \<and> (- 42 :: int) < 2 ^ 63)
   \<and> parse (Suc 0) ''i-42e'' = Some (Inr (BInt (- 42)))
   \<and> sint (- 42 :: int64) = - 42"
  using decode_int_canonical [of "- 42" 0]
  by (simp add: spec_encode_eval)

section \<open>Byte strings\<close>

text \<open>
  Claim C3. For every byte sequence \<open>b\<close>, of length \<open>L\<close>, decoding the decimal digits of \<open>L\<close>,
  a \<open>:\<close> and then \<open>b\<close> yields the byte string \<open>b\<close> exactly, whatever bytes \<open>b\<close> holds;
  \<^verbatim>\<open>0:\<close> decodes to the empty string. The buffer is shorter than \<open>2 ^ 64\<close> bytes, as every
  \<^verbatim>\<open>string_view\<close> on a 64-bit machine is.
\<close>

theorem decode_string_encoding:
  "(length (spec_encode_string b) < 2 ^ 64 \<longrightarrow>
      parse (Suc fuel) (spec_encode_string b) = Some (Inr (BString b)))
   \<and> parse (Suc fuel) ''0:'' = Some (Inr (BString []))"
proof (intro conjI impI)
  assume "length (spec_encode_string b) < 2 ^ 64"
  then show "parse (Suc fuel) (spec_encode_string b) = Some (Inr (BString b))"
    using parseValue_spec_encode_string [of "[]" b "[]" fuel]
    by (simp add: parse_def)
next
  show "parse (Suc fuel) ''0:'' = Some (Inr (BString []))"
    by (simp add: decoder_eval)
qed

theorem decode_string_encoding_witness:
  "length ''3:a'' < (2 :: nat) ^ 64
   \<and> parse (Suc 0) [CHR ''3'', CHR '':'', CHR ''a'', CHR 0x00, CHR 0xFF]
       = Some (Inr (BString [CHR ''a'', CHR 0x00, CHR 0xFF]))"
proof -
  have enc: "spec_encode_string [CHR ''a'', CHR 0x00, CHR 0xFF]
      = [CHR ''3'', CHR '':'', CHR ''a'', CHR 0x00, CHR 0xFF]"
    by code_simp
  show ?thesis
    using decode_string_encoding [of "[CHR ''a'', CHR 0x00, CHR 0xFF]" 0]
    by (simp add: enc)
qed

section \<open>Integer overflow\<close>

text \<open>
  Claim C9. The digits of an integer are accumulated with no overflow check: the literal
  \<^verbatim>\<open>i9223372036854775808e\<close>, which writes \<open>2 ^ 63\<close>, is decoded without failure, and the
  value returned is the number wrapped around modulo \<open>2 ^ 64\<close>, \<open>- (2 ^ 63)\<close>, not the
  number written.
\<close>

theorem decode_int_overflow_wraps:
  "spec_encode_int (2 ^ 63) = ''i9223372036854775808e''
   \<and> parse (Suc fuel) ''i9223372036854775808e'' = Some (Inr (BInt (- 9223372036854775808)))
   \<and> sint (- 9223372036854775808 :: int64) = - (2 ^ 63)
   \<and> sint (- 9223372036854775808 :: int64) \<noteq> 2 ^ 63"
proof (intro conjI)
  show "spec_encode_int (2 ^ 63) = ''i9223372036854775808e''"
    by (simp add: spec_encode_eval)
  show "parse (Suc fuel) ''i9223372036854775808e'' = Some (Inr (BInt (- 9223372036854775808)))"
    by (simp add: decoder_eval)
  show "sint (- 9223372036854775808 :: int64) = - (2 ^ 63)"
    by simp
  then show "sint (- 9223372036854775808 :: int64) \<noteq> 2 ^ 63"
    by simp
qed

section \<open>Malformed integers\<close>

lemma parse_int_dispatch:
  "parse (Suc fuel) (CHR ''i'' # s) =
     (case parseInt (CHR ''i'' # s) 0 of
        Inl e \<Rightarrow> Some (Inl e)
      | Inr (i, p) \<Rightarrow> Some (Inr (BInt i)))"
  by (simp add: parse_def isdigit_def split: sum.splits)

lemma parseInt_leading_zero:
  assumes "sg = [] \<or> sg = ''-''" and "isdigit d"
  shows "parseInt (CHR ''i'' # sg @ CHR ''0'' # d # rest) 0 = Inl IntegerLeadingZeros"
proof -
  from assms(2) have "d \<noteq> CHR ''e''" using isdigit_not_marker by blast
  with assms(1) show ?thesis
    by (auto simp add: parseInt_def isdigit_def)
qed

lemma parseInt_no_digits:
  assumes "sg = [] \<or> sg = ''-''"
    and "rest = [] \<or> \<not> isdigit (hd rest)"
    and "sg = [] \<Longrightarrow> rest = [] \<or> hd rest \<noteq> CHR ''-''"
  shows "parseInt (CHR ''i'' # sg @ rest) 0 = Inl IntegerNoDigits"
  using assms by (cases rest) (auto simp add: parseInt_def)

lemma parseInt_unterminated:
  assumes "sg = [] \<or> sg = ''-''" and "list_all isdigit ds" and "ds \<noteq> []"
    and "rest = [] \<or> (\<not> isdigit (hd rest) \<and> hd rest \<noteq> CHR ''e'')"
  shows "\<exists>e. parseInt (CHR ''i'' # sg @ ds @ rest) 0 = Inl e"
proof -
  from assms(3) obtain d ds' where Cons: "ds = d # ds'" by (cases ds) auto
  with assms(2) have d: "isdigit d" by simp
  then have dm: "d \<noteq> CHR ''-''" using isdigit_not_marker by blast
  from assms(4) have stop: "rest = [] \<or> \<not> isdigit (hd rest)" by blast
  from assms(4) have ne: "rest = [] \<or> hd rest \<noteq> CHR ''e''" by blast
  from assms(1) show ?thesis
  proof
    assume sg: "sg = []"
    have loop: "parseInt_digits (CHR ''i'' # d # ds' @ rest) (Suc 0) 0 =
        (foldl (\<lambda>r c. r * 10 + of_nat (digit_value c)) 0 ds, Suc (length ds))"
      using parseInt_digits_foldl [OF assms(2) stop, of "[CHR ''i'']" 0]
      by (simp add: Cons)
    show ?thesis
      unfolding sg Cons using d dm loop ne
      by (cases rest) (auto simp add: parseInt_def Let_def Cons nth_append)
  next
    assume sg: "sg = ''-''"
    have loop: "parseInt_digits (CHR ''i'' # CHR ''-'' # d # ds' @ rest) (Suc (Suc 0)) 0 =
        (foldl (\<lambda>r c. r * 10 + of_nat (digit_value c)) 0 ds, Suc (Suc (length ds)))"
      using parseInt_digits_foldl [OF assms(2) stop, of "[CHR ''i'', CHR ''-'']" 0]
      by (simp add: Cons)
    show ?thesis
      unfolding sg Cons using d loop ne
      by (cases rest) (auto simp add: parseInt_def Let_def Cons nth_append)
  qed
qed

text \<open>
  Claim C5. Every input that begins with a leading-zero integer literal (\<open>i\<close>, an optional
  \<open>-\<close>, a \<open>0\<close> and another digit, as in \<^verbatim>\<open>i01e\<close> and \<^verbatim>\<open>i00e\<close>) fails, with "leading
  zeros". Every input that begins with an incomplete integer literal fails: when no digit
  follows the \<open>i\<close> and the optional \<open>-\<close> (as in \<^verbatim>\<open>i\<close>, \<^verbatim>\<open>ie\<close> and \<^verbatim>\<open>i-e\<close>), with "no
  digits"; when the digits are followed by the end of the input or by a byte that is not
  \<open>e\<close>, with one of the decoder's errors.
\<close>

theorem decode_int_malformed:
  "sg = [] \<or> sg = ''-'' \<Longrightarrow>
     (isdigit d \<longrightarrow>
        parse (Suc fuel) (CHR ''i'' # sg @ CHR ''0'' # d # rest) = Some (Inl IntegerLeadingZeros))
   \<and> ((rest = [] \<or> \<not> isdigit (hd rest)) \<and> (sg = [] \<longrightarrow> rest = [] \<or> hd rest \<noteq> CHR ''-'') \<longrightarrow>
        parse (Suc fuel) (CHR ''i'' # sg @ rest) = Some (Inl IntegerNoDigits))
   \<and> (ds \<noteq> [] \<and> list_all isdigit ds
        \<and> (rest = [] \<or> (\<not> isdigit (hd rest) \<and> hd rest \<noteq> CHR ''e'')) \<longrightarrow>
        (\<exists>e. parse (Suc fuel) (CHR ''i'' # sg @ ds @ rest) = Some (Inl e)))"
proof (intro conjI impI)
  assume sg: "sg = [] \<or> sg = ''-''"
  {
    assume "isdigit d"
    with sg show "parse (Suc fuel) (CHR ''i'' # sg @ CHR ''0'' # d # rest)
        = Some (Inl IntegerLeadingZeros)"
      by (simp only: parse_int_dispatch parseInt_leading_zero sum.case)
  next
    assume "(rest = [] \<or> \<not> isdigit (hd rest)) \<and> (sg = [] \<longrightarrow> rest = [] \<or> hd rest \<noteq> CHR ''-'')"
    with sg have "parseInt (CHR ''i'' # sg @ rest) 0 = Inl IntegerNoDigits"
      by (intro parseInt_no_digits) auto
    then show "parse (Suc fuel) (CHR ''i'' # sg @ rest) = Some (Inl IntegerNoDigits)"
      by (simp only: parse_int_dispatch sum.case)
  next
    assume "ds \<noteq> [] \<and> list_all isdigit ds
        \<and> (rest = [] \<or> (\<not> isdigit (hd rest) \<and> hd rest \<noteq> CHR ''e''))"
    with sg obtain e where "parseInt (CHR ''i'' # sg @ ds @ rest) 0 = Inl e"
      using parseInt_unterminated [of sg ds rest] by blast
    then show "\<exists>e. parse (Suc fuel) (CHR ''i'' # sg @ ds @ rest) = Some (Inl e)"
      by (simp only: parse_int_dispatch sum.case) blast
  }
qed

theorem decode_int_malformed_witness:
  "parse (Suc 0) ''i01e'' = Some (Inl IntegerLeadingZeros)
   \<and> parse (Suc 0) ''i00e'' = Some (Inl IntegerLeadingZeros)
   \<and> parse (Suc 0) ''i-01e'' = Some (Inl IntegerLeadingZeros)
   \<and> parse (Suc 0) ''i'' = Some (Inl IntegerNoDigits)
   \<and> parse (Suc 0) ''ie'' = Some (Inl IntegerNoDigits)
   \<and> parse (Suc 0) ''i-e'' = Some (Inl IntegerNoDigits)
   \<and> (\<exists>e. parse (Suc 0) ''i-12'' = Some (Inl e))
   \<and> (\<exists>e. parse (Suc 0) ''i12x'' = Some (Inl e))"
  using decode_int_malformed [of "[]" "CHR ''1''" 0 "''e''" "''1''"]
    decode_int_malformed [of "[]" "CHR ''0''" 0 "''e''" "''1''"]
    decode_int_malformed [of "''-''" "CHR ''1''" 0 "''e''" "''1''"]
    decode_int_malformed [of "[]" "CHR ''1''" 0 "[]" "''1''"]
    decode_int_malformed [of "''-''" "CHR ''1''" 0 "[]" "''12''"]
    decode_int_malformed [of "[]" "CHR ''1''" 0 "''x''" "''12''"]
  by (simp add: isdigit_def)

section \<open>Evaluating the decoder on given bytes\<close>

text \<open>The equations of the decoder for a numeral amount of fuel.\<close>

lemmas parseValue_fuel =
  parseValue.simps(2) [of "pred_numeral k", folded numeral_eq_Suc] for k

lemmas parseList_fuel =
  parseList.simps(2) [of "pred_numeral k", folded numeral_eq_Suc] for k

lemmas parseList_loop_fuel =
  parseList_loop.simps(2) [of "pred_numeral k", folded numeral_eq_Suc] for k

lemmas parseDict_fuel =
  parseDict.simps(2) [of "pred_numeral k", folded numeral_eq_Suc] for k

lemmas parseDict_loop_fuel =
  parseDict_loop.simps(2) [of "pred_numeral k", folded numeral_eq_Suc] for k

lemmas fuel_eval =
  parseValue_fuel parseList_fuel parseList_loop_fuel parseDict_fuel parseDict_loop_fuel

lemmas torrent_eval =
  TorrentFile_of_def parseTorrentDict_def parseInfoDict_def TorrentFile_init_def
  find_int_def find_string_def find_list_def find_dict_def map_find_def
  parseInfoDict_pieces.simps substr_def

text \<open>
  Why the decoder needs fuel, and why "the encoding of a value" is defined by the grammar
  and not by what the decoder accepts: a length prefix of \<open>2 ^ 64 - 2\<close> passes the check
  \<^verbatim>\<open>pos + length > input.size()\<close>, because the sum wraps around; the string read is the rest
  of the buffer and the cursor moves two bytes back, onto the last digit of the prefix,
  where a second string is read.
\<close>

lemma length_prefix_wraps_example:
  "parse 5 ''l18446744073709551614:abcde'' =
     Some (Inr (BList [BString ''abcde'', BString ''abcd'']))"
  by (simp add: decoder_eval fuel_eval)

section \<open>The metadata layer\<close>

subsection \<open>Piece hashes\<close>

lemma parseInfoDict_pieces_concat:
  "concat (parseInfoDict_pieces piecesStr i ps) = concat ps @ drop i piecesStr"
proof (induction piecesStr i ps rule: parseInfoDict_pieces.induct)
  case (1 piecesStr i ps)
  show ?case
  proof (cases "i < length piecesStr")
    case True
    have "take 20 (drop i piecesStr) @ drop (i + 20) piecesStr = drop i piecesStr"
      by (metis add.commute append_take_drop_id drop_drop)
    with 1 [OF True] True show ?thesis
      by (subst parseInfoDict_pieces.simps) (simp add: substr_def)
  next
    case False
    then show ?thesis
      by (subst parseInfoDict_pieces.simps) simp
  qed
qed

lemma parseInfoDict_pieces_multiple:
  "20 dvd (length piecesStr - i) \<Longrightarrow> list_all (\<lambda>h. length h = 20) ps \<Longrightarrow>
     list_all (\<lambda>h. length h = 20) (parseInfoDict_pieces piecesStr i ps)"
proof (induction piecesStr i ps rule: parseInfoDict_pieces.induct)
  case (1 piecesStr i ps)
  show ?case
  proof (cases "i < length piecesStr")
    case True
    with 1(2) have ge: "20 \<le> length piecesStr - i"
      by (auto elim!: dvdE)
    then have "20 dvd (length piecesStr - (i + 20))"
      using 1(2) by (metis diff_diff_left dvd_diff_nat dvd_refl)
    moreover have "list_all (\<lambda>h. length h = 20) (ps @ [substr piecesStr i 20])"
      using 1(3) ge by (simp add: substr_def)
    ultimately show ?thesis
      using 1(1) [OF True] True by (subst parseInfoDict_pieces.simps) simp
  next
    case False
    with 1(3) show ?thesis
      by (subst parseInfoDict_pieces.simps) simp
  qed
qed

lemma pieces_short_bytes:
  "parse 12 ''d4:infod6:lengthi1e12:piece lengthi1e6:pieces3:abcee''
    = Some (Inr (BDict [(''info'', BDict [(''length'', BInt 1), (''piece length'', BInt 1),
         (''pieces'', BString ''abc'')])]))"
  by (simp add: decoder_eval fuel_eval)

text \<open>
  Claim C7. The \<open>pieces\<close> byte string is cut into consecutive chunks of 20 bytes, one piece
  hash per chunk, with no verification; every piece hash is exactly 20 bytes long. The
  chunks do make up the string again, and they are all 20 bytes long when the length of
  the string is a multiple of 20 (the two lemmas above). When it is not, the last chunk
  is what is left: for the torrent below, whose \<open>pieces\<close> is \<^verbatim>\<open>abc\<close>, the constructor
  succeeds with the single piece hash \<^verbatim>\<open>abc\<close>, 3 bytes long.
\<close>

theorem pieces_short_last_chunk:
  "TorrentFile_of 12 ''d4:infod6:lengthi1e12:piece lengthi1e6:pieces3:abcee'' =
     Some (Inr (TorrentFile_init\<lparr>pieceLength := 1, pieces := [''abc''], totalSize := 1,
       files := [\<lparr>path = [], length_file = 1\<rparr>]\<rparr>))
   \<and> \<not> list_all (\<lambda>h. length h = 20) [''abc'']"
  by (simp add: pieces_short_bytes torrent_eval)

subsection \<open>Single-file torrents\<close>

lemma find_cong:
  assumes "\<forall>k. k \<noteq> k0 \<longrightarrow> map_find d' k = map_find d k" and "k \<noteq> k0"
  shows "find_int d' k = find_int d k" and "find_string d' k = find_string d k"
    and "find_list d' k = find_list d k" and "find_dict d' k = find_dict d k"
  using assms by (simp_all add: find_int_def find_string_def find_list_def find_dict_def)

lemma parseInfoDict_single:
  assumes "find_int infoDict ''piece length'' = Some pl"
    and "find_string infoDict ''pieces'' = Some piecesStr"
    and "find_int infoDict ''length'' = Some len"
  shows "parseInfoDict infoDict t0 =
     Inr (t0\<lparr>pieceLength := pl,
            pieces := parseInfoDict_pieces piecesStr 0 (pieces t0),
            name := (case find_string infoDict ''name'' of None \<Rightarrow> name t0 | Some n \<Rightarrow> n),
            singleFile := True, totalSize := len,
            files := files t0 @
              [\<lparr>path = (case find_string infoDict ''name'' of None \<Rightarrow> name t0 | Some n \<Rightarrow> n),
                length_file = len\<rparr>]\<rparr>)"
  using assms by (simp add: parseInfoDict_def Let_def split: option.splits)

text \<open>
  Claim C10. When the info dictionary has both an integer \<open>length\<close> and a list \<open>files\<close>
  (and the required \<open>piece length\<close> and \<open>pieces\<close>), the torrent is single-file: the flag is
  true, the total size is \<open>length\<close>, the file list is the one entry named by \<open>name\<close>, and
  \<open>files\<close> is never read: any dictionary that differs only at the key \<open>files\<close> gives the
  same object.
\<close>

theorem length_wins_over_files:
  assumes "find_int infoDict ''piece length'' = Some pl"
    and "find_string infoDict ''pieces'' = Some piecesStr"
    and "find_int infoDict ''length'' = Some len"
    and "find_list infoDict ''files'' = Some filesList"
    and "files t0 = []"
  shows "\<exists>t. parseInfoDict infoDict t0 = Inr t
     \<and> singleFile t \<and> totalSize t = len
     \<and> name t = (case find_string infoDict ''name'' of None \<Rightarrow> name t0 | Some n \<Rightarrow> n)
     \<and> files t = [\<lparr>path = name t, length_file = len\<rparr>]
     \<and> (\<forall>d'. (\<forall>k. k \<noteq> ''files'' \<longrightarrow> map_find d' k = map_find infoDict k) \<longrightarrow>
            parseInfoDict d' t0 = Inr t)"
proof -
  let ?t = "t0\<lparr>pieceLength := pl,
            pieces := parseInfoDict_pieces piecesStr 0 (pieces t0),
            name := (case find_string infoDict ''name'' of None \<Rightarrow> name t0 | Some n \<Rightarrow> n),
            singleFile := True, totalSize := len,
            files := files t0 @
              [\<lparr>path = (case find_string infoDict ''name'' of None \<Rightarrow> name t0 | Some n \<Rightarrow> n),
                length_file = len\<rparr>]\<rparr>"
  have run: "parseInfoDict infoDict t0 = Inr ?t"
    using assms(1-3) by (rule parseInfoDict_single)
  have indep: "parseInfoDict d' t0 = Inr ?t"
    if same: "\<forall>k. k \<noteq> ''files'' \<longrightarrow> map_find d' k = map_find infoDict k" for d'
  proof -
    have "find_int d' ''piece length'' = Some pl"
      using find_cong(1) [OF same, of "''piece length''"] assms(1) by simp
    moreover have "find_string d' ''pieces'' = Some piecesStr"
      using find_cong(2) [OF same, of "''pieces''"] assms(2) by simp
    moreover have "find_int d' ''length'' = Some len"
      using find_cong(1) [OF same, of "''length''"] assms(3) by simp
    moreover have "find_string d' ''name'' = find_string infoDict ''name''"
      using find_cong(2) [OF same, of "''name''"] by simp
    ultimately show ?thesis
      using parseInfoDict_single [of d' pl piecesStr len t0] by simp
  qed
  from run indep assms(5) show ?thesis by simp
qed

theorem length_wins_over_files_witness:
  "\<exists>t. parseInfoDict [(''files'', BList [BInt 3]), (''length'', BInt 7), (''name'', BString ''x''),
           (''piece length'', BInt 4), (''pieces'', BString [])] TorrentFile_init = Inr t
     \<and> singleFile t \<and> totalSize t = 7 \<and> files t = [\<lparr>path = ''x'', length_file = 7\<rparr>]"
  using length_wins_over_files [of "[(''files'', BList [BInt 3]), (''length'', BInt 7),
      (''name'', BString ''x''), (''piece length'', BInt 4), (''pieces'', BString [])]"
      4 "[]" 7 "[BInt 3]" TorrentFile_init]
  by (simp add: torrent_eval)

subsection \<open>Multi-file torrents\<close>


















section \<open>std::map\<close>

lemma string_less_iff: "string_less x y \<longleftrightarrow> x < y"
proof (induction x y rule: string_less.induct)
  case (4 x xs y ys)
  have lt: "(of_char x :: nat) < of_char y \<longleftrightarrow> x < y"
    and gt: "(of_char y :: nat) < of_char x \<longleftrightarrow> y < x"
    by (simp_all only: less_char_def)
  consider "x < y" | "y < x" | "x = y"
    using linorder_cases by blast
  then show ?case
  proof cases
    case 1
    then show ?thesis by (simp only: string_less.simps lt Cons_less_Cons) simp
  next
    case 2
    then have "\<not> x < y" and "x \<noteq> y" by auto
    with 2 show ?thesis by (simp only: string_less.simps lt gt Cons_less_Cons) simp
  next
    case 3
    then have nlt: "\<not> (of_char x :: nat) < of_char y" and ngt: "\<not> (of_char y :: nat) < of_char x"
      by simp_all
    from 4 [OF nlt ngt] 3 show ?thesis
      by (simp only: string_less.simps nlt ngt Cons_less_Cons) simp
  qed
qed simp_all

lemma string_less_total: "\<not> string_less x y \<Longrightarrow> \<not> string_less y x \<Longrightarrow> x = y"
  by (simp add: string_less_iff)

lemma keys_ascending_Nil: "keys_ascending []"
  by (simp add: keys_ascending_def)

lemma keys_ascending_Cons:
  "keys_ascending ((k, v) # d) \<longleftrightarrow> (\<forall>k' \<in> fst ` set d. k < k') \<and> keys_ascending d"
  by (auto simp add: keys_ascending_def string_less_iff)

lemma map_insert_Some:
  "k \<notin> fst ` set d \<Longrightarrow> \<exists>d'. map_insert k v d = Some d'"
proof (induction d)
  case Nil
  show ?case by simp
next
  case (Cons e d)
  obtain k' v' where e: "e = (k', v')" by (cases e)
  from Cons.prems have "k \<noteq> k'" and "k \<notin> fst ` set d" by (auto simp add: e)
  with Cons.IH show ?case
    by (auto simp add: e string_less_iff)
qed

lemma map_insert_set:
  "map_insert k v d = Some d' \<Longrightarrow> set d' = insert (k, v) (set d)"
proof (induction d arbitrary: d')
  case Nil
  then show ?case by auto
next
  case (Cons e d)
  obtain k' v' where e: "e = (k', v')" by (cases e)
  from Cons show ?case
    by (auto simp add: e split: if_splits)
qed

lemma map_insert_ascending:
  "keys_ascending d \<Longrightarrow> map_insert k v d = Some d' \<Longrightarrow> keys_ascending d'"
proof (induction d arbitrary: d')
  case Nil
  then show ?case by (auto simp add: keys_ascending_Cons keys_ascending_Nil)
next
  case (Cons e d)
  obtain k' v' where e: "e = (k', v')" by (cases e)
  show ?case
  proof (cases "string_less k k'")
    case True
    with Cons.prems have d': "d' = (k, v) # (k', v') # d" by (simp add: e)
    from True Cons.prems(1) show ?thesis
      unfolding d' e by (auto simp add: keys_ascending_Cons string_less_iff)
  next
    case False
    with Cons.prems(2) obtain d'' where ins: "map_insert k v d = Some d''"
      and d': "d' = (k', v') # d''" and lt: "string_less k' k"
      by (auto simp add: e split: if_splits)
    from Cons.prems(1) have asc: "keys_ascending d" by (simp add: e keys_ascending_Cons)
    from Cons.IH [OF asc ins] have "keys_ascending d''" .
    moreover have "set d'' = insert (k, v) (set d)" using ins by (rule map_insert_set)
    ultimately show ?thesis
      using Cons.prems(1) lt unfolding d' e
      by (auto simp add: keys_ascending_Cons string_less_iff)
  qed
qed

lemma map_insert_None:
  "keys_ascending d \<Longrightarrow> k \<in> fst ` set d \<Longrightarrow> map_insert k v d = None"
proof (induction d)
  case Nil
  then show ?case by simp
next
  case (Cons e d)
  obtain k' v' where e: "e = (k', v')" by (cases e)
  from Cons.prems(1) have asc: "keys_ascending d" and low: "\<forall>x \<in> fst ` set d. k' < x"
    by (simp_all add: e keys_ascending_Cons)
  show ?case
  proof (cases "k = k'")
    case True
    then show ?thesis by (simp add: e string_less_iff)
  next
    case False
    with Cons.prems(2) have mem: "k \<in> fst ` set d" by (auto simp add: e)
    with low have "k' < k" by blast
    with Cons.IH [OF asc mem] show ?thesis
      by (simp add: e string_less_iff)
  qed
qed

lemma map_insert_all_ascending:
  "keys_ascending d \<Longrightarrow> keys_ascending (map_insert_all es d)"
proof (induction es arbitrary: d)
  case Nil
  then show ?case by simp
next
  case (Cons e es)
  obtain k v where e: "e = (k, v)" by (cases e)
  from Cons show ?case
    by (auto simp add: e map_insert_ascending split: option.splits)
qed

lemma map_insert_all_set:
  "distinct (map fst es) \<Longrightarrow> fst ` set d \<inter> fst ` set es = {} \<Longrightarrow>
     set (map_insert_all es d) = set d \<union> set es"
proof (induction es arbitrary: d)
  case Nil
  then show ?case by simp
next
  case (Cons e es)
  obtain k v where e: "e = (k, v)" by (cases e)
  from Cons.prems have k: "k \<notin> fst ` set d" by (auto simp add: e)
  then obtain d' where ins: "map_insert k v d = Some d'"
    using map_insert_Some [OF k, of v] by blast
  then have set': "set d' = insert (k, v) (set d)" by (rule map_insert_set)
  from Cons.prems have dist: "distinct (map fst es)" and "k \<notin> fst ` set es"
    by (auto simp add: e)
  with Cons.prems(2) have "fst ` set d' \<inter> fst ` set es = {}"
    by (auto simp add: set' e)
  from Cons.IH [OF dist this] show ?case
    by (simp add: e ins set')
qed

lemma keys_ascending_unique:
  assumes "keys_ascending d" and "keys_ascending d'" and "set (map fst d) = set (map fst d')"
  shows "map fst d = map fst d'"
proof -
  from assms(1,2) have "sorted_wrt (<) (map fst d)" and "sorted_wrt (<) (map fst d')"
    by (simp_all add: keys_ascending_def string_less_iff [abs_def])
  with assms(3) show ?thesis
    by (metis strict_sorted_equal)
qed

section \<open>Running the recursive decoder\<close>

lemma returnsI: "(\<And>fuel. N \<le> fuel \<Longrightarrow> run fuel = Some r) \<Longrightarrow> returns run r"
  unfolding returns_def by blast

lemma returnsE:
  assumes "returns run r"
  obtains N where "\<And>fuel. N \<le> fuel \<Longrightarrow> run fuel = Some r"
  using assms unfolding returns_def by blast

lemma returns_unique: "returns run r \<Longrightarrow> returns run r' \<Longrightarrow> r = r'"
proof -
  assume "returns run r" and "returns run r'"
  then obtain N N' where "\<And>fuel. N \<le> fuel \<Longrightarrow> run fuel = Some r"
    and "\<And>fuel. N' \<le> fuel \<Longrightarrow> run fuel = Some r'"
    by (auto elim!: returnsE)
  from this(1) [of "max N N'"] this(2) [of "max N N'"] show ?thesis by simp
qed

lemma two_fuels:
  assumes "Suc (max N1 N2) \<le> fuel"
  obtains f where "fuel = Suc f" and "N1 \<le> f" and "N2 \<le> f"
  using assms by (cases fuel) auto

lemma parseList_loop_end:
  assumes "pos < length input" and "input ! pos = CHR ''e''"
  shows "returns (\<lambda>f. parseList_loop f input pos acc) (Inr (acc, pos + 1))"
proof (rule returnsI [where N = 1])
  fix fuel :: nat
  assume "1 \<le> fuel"
  then obtain f where "fuel = Suc f" by (cases fuel) auto
  with assms show "parseList_loop fuel input pos acc = Some (Inr (acc, pos + 1))" by simp
qed

lemma parseList_loop_step:
  assumes "pos < length input" and "input ! pos \<noteq> CHR ''e''"
    and "returns (\<lambda>f. parseValue f input pos) (Inr (v, pos'))"
    and "returns (\<lambda>f. parseList_loop f input pos' (acc @ [v])) r"
  shows "returns (\<lambda>f. parseList_loop f input pos acc) r"
proof -
  obtain N1 where 1: "\<And>f. N1 \<le> f \<Longrightarrow> parseValue f input pos = Some (Inr (v, pos'))"
    using assms(3) unfolding returns_def by blast
  obtain N2 where 2: "\<And>f. N2 \<le> f \<Longrightarrow> parseList_loop f input pos' (acc @ [v]) = Some r"
    using assms(4) unfolding returns_def by blast
  show ?thesis
  proof (rule returnsI [where N = "Suc (max N1 N2)"])
    fix fuel
    assume "Suc (max N1 N2) \<le> fuel"
    then obtain f where "fuel = Suc f" and "N1 \<le> f" and "N2 \<le> f" by (rule two_fuels)
    with assms(1,2) 1 2 show "parseList_loop fuel input pos acc = Some r" by simp
  qed
qed

lemma parseValue_list:
  assumes "pos < length input" and "input ! pos = CHR ''l''"
    and "returns (\<lambda>f. parseList_loop f input (pos + 1) []) r"
  shows "returns (\<lambda>f. parseValue f input pos)
           (case r of Inl e \<Rightarrow> Inl e | Inr (l, pos') \<Rightarrow> Inr (BList l, pos'))"
proof -
  obtain N where N: "\<And>f. N \<le> f \<Longrightarrow> parseList_loop f input (pos + 1) [] = Some r"
    using assms(3) unfolding returns_def by blast
  show ?thesis
  proof (rule returnsI [where N = "Suc (Suc N)"])
    fix fuel
    assume "Suc (Suc N) \<le> fuel"
    then obtain f where "fuel = Suc (Suc f)" and "N \<le> f"
      by (cases fuel; simp) (metis Suc_le_D Suc_le_mono)
    with assms(1,2) N [of f] show "parseValue fuel input pos =
        Some (case r of Inl e \<Rightarrow> Inl e | Inr (l, pos') \<Rightarrow> Inr (BList l, pos'))"
      by (simp add: isdigit_def split: sum.splits)
  qed
qed

lemma parseDict_loop_end:
  assumes "pos < length input" and "input ! pos = CHR ''e''"
  shows "returns (\<lambda>f. parseDict_loop f input pos acc) (Inr (acc, pos + 1))"
proof (rule returnsI [where N = 1])
  fix fuel :: nat
  assume "1 \<le> fuel"
  then obtain f where "fuel = Suc f" by (cases fuel) auto
  with assms show "parseDict_loop fuel input pos acc = Some (Inr (acc, pos + 1))" by simp
qed

lemma parseDict_loop_not_string:
  assumes "pos < length input" and "input ! pos \<noteq> CHR ''e''" and "\<not> isdigit (input ! pos)"
  shows "returns (\<lambda>f. parseDict_loop f input pos acc) (Inl DictKeyNotString)"
proof (rule returnsI [where N = 1])
  fix fuel :: nat
  assume "1 \<le> fuel"
  then obtain f where "fuel = Suc f" by (cases fuel) auto
  with assms show "parseDict_loop fuel input pos acc = Some (Inl DictKeyNotString)" by simp
qed

lemma parseDict_loop_step:
  assumes "pos < length input" and "isdigit (input ! pos)"
    and "parseString input pos = Inr (key, pos1)"
    and "returns (\<lambda>f. parseValue f input pos1) (Inr (v, pos2))"
    and "map_insert key v acc = Some acc'"
    and "returns (\<lambda>f. parseDict_loop f input pos2 acc') r"
  shows "returns (\<lambda>f. parseDict_loop f input pos acc) r"
proof -
  from assms(2) have ne: "input ! pos \<noteq> CHR ''e''" using isdigit_not_marker by blast
  obtain N1 where 1: "\<And>f. N1 \<le> f \<Longrightarrow> parseValue f input pos1 = Some (Inr (v, pos2))"
    using assms(4) unfolding returns_def by blast
  obtain N2 where 2: "\<And>f. N2 \<le> f \<Longrightarrow> parseDict_loop f input pos2 acc' = Some r"
    using assms(6) unfolding returns_def by blast
  show ?thesis
  proof (rule returnsI [where N = "Suc (max N1 N2)"])
    fix fuel
    assume "Suc (max N1 N2) \<le> fuel"
    then obtain f where "fuel = Suc f" and "N1 \<le> f" and "N2 \<le> f" by (rule two_fuels)
    with assms(1,2,3,5) ne 1 2 show "parseDict_loop fuel input pos acc = Some r" by simp
  qed
qed

lemma parseDict_loop_duplicate:
  assumes "pos < length input" and "isdigit (input ! pos)"
    and "parseString input pos = Inr (key, pos1)"
    and "returns (\<lambda>f. parseValue f input pos1) (Inr (v, pos2))"
    and "map_insert key v acc = None"
  shows "returns (\<lambda>f. parseDict_loop f input pos acc) (Inl DuplicateKey)"
proof -
  from assms(2) have ne: "input ! pos \<noteq> CHR ''e''" using isdigit_not_marker by blast
  obtain N1 where 1: "\<And>f. N1 \<le> f \<Longrightarrow> parseValue f input pos1 = Some (Inr (v, pos2))"
    using assms(4) unfolding returns_def by blast
  show ?thesis
  proof (rule returnsI [where N = "Suc N1"])
    fix fuel
    assume "Suc N1 \<le> fuel"
    then obtain f where "fuel = Suc f" and "N1 \<le> f" by (cases fuel) auto
    with assms(1,2,3,5) ne 1 show "parseDict_loop fuel input pos acc = Some (Inl DuplicateKey)"
      by simp
  qed
qed

lemma parseValue_dict:
  assumes "pos < length input" and "input ! pos = CHR ''d''"
    and "returns (\<lambda>f. parseDict_loop f input (pos + 1) []) r"
  shows "returns (\<lambda>f. parseValue f input pos)
           (case r of Inl e \<Rightarrow> Inl e | Inr (d, pos') \<Rightarrow> Inr (BDict d, pos'))"
proof -
  obtain N where N: "\<And>f. N \<le> f \<Longrightarrow> parseDict_loop f input (pos + 1) [] = Some r"
    using assms(3) unfolding returns_def by blast
  show ?thesis
  proof (rule returnsI [where N = "Suc (Suc N)"])
    fix fuel
    assume "Suc (Suc N) \<le> fuel"
    then obtain f where "fuel = Suc (Suc f)" and "N \<le> f"
      by (cases fuel; simp) (metis Suc_le_D Suc_le_mono)
    with assms(1,2) N [of f] show "parseValue fuel input pos =
        Some (case r of Inl e \<Rightarrow> Inl e | Inr (d, pos') \<Rightarrow> Inr (BDict d, pos'))"
      by (simp add: isdigit_def split: sum.splits)
  qed
qed

lemma parse_returns:
  assumes "returns (\<lambda>f. parseValue f input 0) r"
  shows "returns (\<lambda>f. parse f input) (case r of Inl e \<Rightarrow> Inl e | Inr (v, pos) \<Rightarrow> Inr v)"
proof -
  obtain N where N: "\<And>f. N \<le> f \<Longrightarrow> parseValue f input 0 = Some r"
    using assms unfolding returns_def by blast
  show ?thesis
    by (rule returnsI [where N = N]) (simp add: parse_def N split: sum.splits)
qed

lemma spec_encode_TDict:
  "spec_encode (TDict kts) = CHR ''d'' # spec_encode_entries kts @ ''e''"
  by (simp add: spec_encode_entries_def)

lemma spec_value_TDict: "spec_value (TDict kts) = BDict (map_insert_all (spec_entries kts) [])"
  by (simp add: spec_entries_def)

lemma spec_encode_entries_Cons:
  "spec_encode_entries ((k, t) # kts) = spec_encode_string k @ spec_encode t @ spec_encode_entries kts"
  by (simp add: spec_encode_entries_def)

lemma spec_encode_head: "\<exists>c tl. spec_encode t = c # tl \<and> c \<noteq> CHR ''e''"
proof (cases t)
  case (TInt n)
  then show ?thesis by (simp add: spec_encode_int_def)
next
  case (TStr b)
  then show ?thesis
    using spec_encode_string_head [of b] isdigit_not_marker by auto
qed simp_all

lemma parseList_loop_elements:
  assumes "\<And>t pre rest. t \<in> set ts \<Longrightarrow> length (pre @ spec_encode t @ rest) < 2 ^ 64 \<Longrightarrow>
      returns (\<lambda>f. parseValue f (pre @ spec_encode t @ rest) (length pre))
        (Inr (spec_value t, length pre + length (spec_encode t)))"
    and "length (pre @ concat (map spec_encode ts) @ rest) < 2 ^ 64"
    and "returns (\<lambda>f. parseList_loop f (pre @ concat (map spec_encode ts) @ rest)
        (length pre + length (concat (map spec_encode ts))) (acc @ map spec_value ts)) r"
  shows "returns (\<lambda>f. parseList_loop f (pre @ concat (map spec_encode ts) @ rest)
        (length pre) acc) r"
  using assms
proof (induction ts arbitrary: pre acc)
  case Nil
  then show ?case by simp
next
  case (Cons t ts)
  define input where "input = pre @ concat (map spec_encode (t # ts)) @ rest"
  have in1: "input = pre @ spec_encode t @ (concat (map spec_encode ts) @ rest)"
    by (simp add: input_def)
  have in2: "input = (pre @ spec_encode t) @ concat (map spec_encode ts) @ rest"
    by (simp add: input_def)
  from Cons.prems(2) have small: "length input < 2 ^ 64" by (simp add: input_def)
  obtain c tl where hd: "spec_encode t = c # tl" and c: "c \<noteq> CHR ''e''"
    using spec_encode_head by blast
  have pos: "length pre < length input" by (simp add: in1 hd)
  have ne: "input ! length pre \<noteq> CHR ''e''" by (simp add: in1 hd c)
  have v: "returns (\<lambda>f. parseValue f input (length pre))
      (Inr (spec_value t, length pre + length (spec_encode t)))"
    unfolding in1 using small by (intro Cons.prems(1)) (simp_all add: in1)
  have "returns (\<lambda>f. parseList_loop f ((pre @ spec_encode t) @ concat (map spec_encode ts) @ rest)
      (length (pre @ spec_encode t)) (acc @ [spec_value t])) r"
  proof (rule Cons.IH)
    fix t' pre' rest'
    assume "t' \<in> set ts" and "length (pre' @ spec_encode t' @ rest') < 2 ^ 64"
    then show "returns (\<lambda>f. parseValue f (pre' @ spec_encode t' @ rest') (length pre'))
        (Inr (spec_value t', length pre' + length (spec_encode t')))"
      by (intro Cons.prems(1)) simp_all
  next
    from small show "length ((pre @ spec_encode t) @ concat (map spec_encode ts) @ rest) < 2 ^ 64"
      by (simp add: in2)
  next
    from Cons.prems(3)
    show "returns (\<lambda>f. parseList_loop f ((pre @ spec_encode t) @ concat (map spec_encode ts) @ rest)
        (length (pre @ spec_encode t) + length (concat (map spec_encode ts)))
        ((acc @ [spec_value t]) @ map spec_value ts)) r"
      by (simp add: add.assoc)
  qed
  then have rest: "returns (\<lambda>f. parseList_loop f input (length pre + length (spec_encode t))
      (acc @ [spec_value t])) r"
    by (simp add: in2)
  from parseList_loop_step [OF pos ne v rest] show ?case
    by (simp only: input_def)
qed

lemma parseDict_loop_entries:
  assumes "\<And>k t pre rest. (k, t) \<in> set kts \<Longrightarrow> length (pre @ spec_encode t @ rest) < 2 ^ 64 \<Longrightarrow>
      returns (\<lambda>f. parseValue f (pre @ spec_encode t @ rest) (length pre))
        (Inr (spec_value t, length pre + length (spec_encode t)))"
    and "length (pre @ spec_encode_entries kts @ rest) < 2 ^ 64"
    and "keys_ascending acc"
    and "distinct (map fst kts)"
    and "fst ` set acc \<inter> fst ` set kts = {}"
    and "returns (\<lambda>f. parseDict_loop f (pre @ spec_encode_entries kts @ rest)
        (length pre + length (spec_encode_entries kts))
        (map_insert_all (spec_entries kts) acc)) r"
  shows "returns (\<lambda>f. parseDict_loop f (pre @ spec_encode_entries kts @ rest) (length pre) acc) r"
  using assms
proof (induction kts arbitrary: pre acc)
  case Nil
  then show ?case by (simp add: spec_encode_entries_def spec_entries_def)
next
  case (Cons e kts)
  obtain k t where e: "e = (k, t)" by (cases e)
  define input where "input = pre @ spec_encode_entries (e # kts) @ rest"
  define pre1 where "pre1 = pre @ spec_encode_string k"
  define pre2 where "pre2 = pre1 @ spec_encode t"
  have in0: "input = pre @ spec_encode_string k @ (spec_encode t @ spec_encode_entries kts @ rest)"
    by (simp add: input_def e spec_encode_entries_Cons)
  have in1: "input = pre1 @ spec_encode t @ (spec_encode_entries kts @ rest)"
    by (simp add: in0 pre1_def)
  have in2: "input = pre2 @ spec_encode_entries kts @ rest"
    by (simp add: in1 pre2_def)
  from Cons.prems(2) have small: "length input < 2 ^ 64" by (simp add: input_def)
  obtain c tl where hd: "spec_encode_string k = c # tl" and c: "isdigit c"
    using spec_encode_string_head by blast
  have pos: "length pre < length input" by (simp add: in0 hd)
  have dig: "isdigit (input ! length pre)" by (simp add: in0 hd c)
  have key: "parseString input (length pre) = Inr (k, length pre1)"
    unfolding in0 pre1_def using small
    by (simp add: parseString_spec_encode_string in0)
  have v: "returns (\<lambda>f. parseValue f input (length pre1)) (Inr (spec_value t, length pre2))"
    unfolding in1 pre2_def using small Cons.prems(1) [of k t pre1 "spec_encode_entries kts @ rest"]
    by (simp add: e in1)
  from Cons.prems(5) have knew: "k \<notin> fst ` set acc" by (auto simp add: e)
  then obtain acc' where ins: "map_insert k (spec_value t) acc = Some acc'"
    using map_insert_Some [of k acc "spec_value t"] by blast
  then have set': "set acc' = insert (k, spec_value t) (set acc)" by (rule map_insert_set)
  have asc': "keys_ascending acc'" using Cons.prems(3) ins by (rule map_insert_ascending)
  from Cons.prems(4) have dist: "distinct (map fst kts)" and kk: "k \<notin> fst ` set kts"
    by (auto simp add: e)
  have disj: "fst ` set acc' \<inter> fst ` set kts = {}"
    using Cons.prems(5) kk by (auto simp add: set' e)
  have "returns (\<lambda>f. parseDict_loop f (pre2 @ spec_encode_entries kts @ rest) (length pre2) acc') r"
  proof (rule Cons.IH [OF _ _ asc' dist disj])
    fix k' t' pre' rest'
    assume "(k', t') \<in> set kts" and "length (pre' @ spec_encode t' @ rest') < 2 ^ 64"
    then show "returns (\<lambda>f. parseValue f (pre' @ spec_encode t' @ rest') (length pre'))
        (Inr (spec_value t', length pre' + length (spec_encode t')))"
      using Cons.prems(1) [of k' t' pre' rest'] by simp
  next
    from small show "length (pre2 @ spec_encode_entries kts @ rest) < 2 ^ 64"
      by (simp add: in2)
  next
    from Cons.prems(6)
    show "returns (\<lambda>f. parseDict_loop f (pre2 @ spec_encode_entries kts @ rest)
        (length pre2 + length (spec_encode_entries kts))
        (map_insert_all (spec_entries kts) acc')) r"
      by (simp add: e spec_encode_entries_Cons spec_entries_def ins pre2_def pre1_def add.assoc)
  qed
  then have rest: "returns (\<lambda>f. parseDict_loop f input (length pre2) acc') r"
    by (simp only: in2)
  from parseDict_loop_step [OF pos dig key v ins rest] show ?case
    by (simp only: input_def)
qed

lemma parseValue_spec_encode:
  "spec_valid t \<Longrightarrow> length (pre @ spec_encode t @ rest) < 2 ^ 64 \<Longrightarrow>
     returns (\<lambda>f. parseValue f (pre @ spec_encode t @ rest) (length pre))
       (Inr (spec_value t, length pre + length (spec_encode t)))"
proof (induction t arbitrary: pre rest)
  case (TInt n)
  show ?case
  proof (rule returnsI [where N = 1])
    fix fuel :: nat
    assume "1 \<le> fuel"
    then obtain f where "fuel = Suc f" by (cases fuel) auto
    then show "parseValue fuel (pre @ spec_encode (TInt n) @ rest) (length pre) =
        Some (Inr (spec_value (TInt n), length pre + length (spec_encode (TInt n))))"
      by (simp add: parseValue_spec_encode_int del: parseValue.simps)
  qed
next
  case (TStr b)
  show ?case
  proof (rule returnsI [where N = 1])
    fix fuel :: nat
    assume "1 \<le> fuel"
    then obtain f where "fuel = Suc f" by (cases fuel) auto
    with TStr.prems(2)
    show "parseValue fuel (pre @ spec_encode (TStr b) @ rest) (length pre) =
        Some (Inr (spec_value (TStr b), length pre + length (spec_encode (TStr b))))"
      by (simp add: parseValue_spec_encode_string del: parseValue.simps)
  qed
next
  case (TList ts)
  define body where "body = concat (map spec_encode ts)"
  define input where "input = pre @ spec_encode (TList ts) @ rest"
  define pre' where "pre' = pre @ ''l''"
  have in0: "input = pre @ CHR ''l'' # body @ CHR ''e'' # rest"
    by (simp add: input_def body_def)
  have in1: "input = pre' @ body @ CHR ''e'' # rest"
    by (simp add: in0 pre'_def)
  have in2: "input = (pre' @ body) @ CHR ''e'' # rest"
    by (simp add: in1)
  from TList.prems(2) have small: "length input < 2 ^ 64" by (simp add: input_def)
  from TList.prems(1) have valid: "\<forall>t \<in> set ts. spec_valid t" by (simp add: list_all_iff)
  have close: "returns (\<lambda>f. parseList_loop f input (length pre' + length body) ([] @ map spec_value ts))
      (Inr ([] @ map spec_value ts, length pre' + length body + 1))"
    by (rule parseList_loop_end) (simp_all add: in2 nth_append)
  have "returns (\<lambda>f. parseList_loop f (pre' @ concat (map spec_encode ts) @ CHR ''e'' # rest)
      (length pre') []) (Inr ([] @ map spec_value ts, length pre' + length body + 1))"
  proof (rule parseList_loop_elements)
    fix t pre1 rest1
    assume "t \<in> set ts" and "length (pre1 @ spec_encode t @ rest1) < 2 ^ 64"
    with valid show "returns (\<lambda>f. parseValue f (pre1 @ spec_encode t @ rest1) (length pre1))
        (Inr (spec_value t, length pre1 + length (spec_encode t)))"
      by (intro TList.IH) simp_all
  next
    from small show "length (pre' @ concat (map spec_encode ts) @ CHR ''e'' # rest) < 2 ^ 64"
      by (simp add: in1 body_def)
  next
    from close show "returns (\<lambda>f. parseList_loop f (pre' @ concat (map spec_encode ts) @ CHR ''e'' # rest)
        (length pre' + length (concat (map spec_encode ts))) ([] @ map spec_value ts))
        (Inr ([] @ map spec_value ts, length pre' + length body + 1))"
      by (simp only: in1 body_def)
  qed
  then have loop: "returns (\<lambda>f. parseList_loop f input (length pre + 1) [])
      (Inr (map spec_value ts, length pre' + length body + 1))"
    by (simp add: in1 body_def pre'_def)
  have "returns (\<lambda>f. parseValue f input (length pre))
      (Inr (BList (map spec_value ts), length pre' + length body + 1))"
    using parseValue_list [OF _ _ loop] by (simp add: in0)
  then show ?case
    by (simp add: input_def pre'_def body_def)
next
  case (TDict kts)
  define body where "body = spec_encode_entries kts"
  define input where "input = pre @ spec_encode (TDict kts) @ rest"
  define pre' where "pre' = pre @ ''d''"
  define result where "result = map_insert_all (spec_entries kts) []"
  have in0: "input = pre @ CHR ''d'' # body @ CHR ''e'' # rest"
    by (simp add: input_def body_def spec_encode_TDict del: spec_encode.simps)
  have in1: "input = pre' @ body @ CHR ''e'' # rest"
    by (simp add: in0 pre'_def)
  have in2: "input = (pre' @ body) @ CHR ''e'' # rest"
    by (simp add: in1)
  from TDict.prems(2) have small: "length input < 2 ^ 64" by (simp add: input_def)
  from TDict.prems(1) have valid: "\<forall>(k, t) \<in> set kts. spec_valid t"
    and dist: "distinct (map fst kts)" by (simp_all add: list_all_iff)
  have close: "returns (\<lambda>f. parseDict_loop f input (length pre' + length body) result)
      (Inr (result, length pre' + length body + 1))"
    by (rule parseDict_loop_end) (simp_all add: in2 nth_append)
  have "returns (\<lambda>f. parseDict_loop f (pre' @ spec_encode_entries kts @ CHR ''e'' # rest)
      (length pre') []) (Inr (result, length pre' + length body + 1))"
  proof (rule parseDict_loop_entries [OF _ _ keys_ascending_Nil dist])
    fix k t pre1 rest1
    assume "(k, t) \<in> set kts" and "length (pre1 @ spec_encode t @ rest1) < 2 ^ 64"
    with valid show "returns (\<lambda>f. parseValue f (pre1 @ spec_encode t @ rest1) (length pre1))
        (Inr (spec_value t, length pre1 + length (spec_encode t)))"
      using TDict.IH [of "(k, t)" t pre1 rest1] by auto
  next
    from small show "length (pre' @ spec_encode_entries kts @ CHR ''e'' # rest) < 2 ^ 64"
      by (simp add: in1 body_def)
  next
    show "fst ` set [] \<inter> fst ` set kts = {}" by simp
  next
    from close show "returns (\<lambda>f. parseDict_loop f (pre' @ spec_encode_entries kts @ CHR ''e'' # rest)
        (length pre' + length (spec_encode_entries kts)) (map_insert_all (spec_entries kts) []))
        (Inr (result, length pre' + length body + 1))"
      by (simp only: in1 body_def result_def)
  qed
  then have loop: "returns (\<lambda>f. parseDict_loop f input (length pre + 1) [])
      (Inr (result, length pre' + length body + 1))"
    by (simp add: in1 body_def pre'_def)
  have "returns (\<lambda>f. parseValue f input (length pre))
      (Inr (BDict result, length pre' + length body + 1))"
    using parseValue_dict [OF _ _ loop] by (simp add: in0)
  then show ?case
    by (simp add: input_def pre'_def body_def result_def spec_encode_TDict spec_value_TDict
        del: spec_encode.simps spec_value.simps)
qed

lemma parse_spec_encode:
  assumes "spec_valid t" and "length (spec_encode t @ rest) < 2 ^ 64"
  shows "returns (\<lambda>f. parse f (spec_encode t @ rest)) (Inr (spec_value t))"
proof -
  have "returns (\<lambda>f. parseValue f (spec_encode t @ rest) 0)
      (Inr (spec_value t, length (spec_encode t)))"
    using parseValue_spec_encode [OF assms(1), of "[]" rest] assms(2) by simp
  from parse_returns [OF this] show ?thesis by simp
qed

section \<open>Trailing bytes\<close>

text \<open>
  Claim C4. For every buffer that is the encoding of a valid value followed by arbitrary
  trailing bytes, decoding succeeds and returns the value that decoding the encoding alone
  returns: the bytes after the first value play no part. (Buffers are shorter than
  \<open>2 ^ 64\<close> bytes.)
\<close>

theorem decode_ignores_trailing_bytes:
  assumes "spec_valid t" and "length (spec_encode t @ trailing) < 2 ^ 64"
  shows "returns (\<lambda>f. parse f (spec_encode t @ trailing)) (Inr (spec_value t))
     \<and> returns (\<lambda>f. parse f (spec_encode t)) (Inr (spec_value t))"
proof
  show "returns (\<lambda>f. parse f (spec_encode t @ trailing)) (Inr (spec_value t))"
    using assms by (rule parse_spec_encode)
  from assms(2) have "length (spec_encode t @ []) < 2 ^ 64" by simp
  with assms(1) have "returns (\<lambda>f. parse f (spec_encode t @ [])) (Inr (spec_value t))"
    by (rule parse_spec_encode)
  then show "returns (\<lambda>f. parse f (spec_encode t)) (Inr (spec_value t))" by simp
qed

lemma decode_trailing_example:
  "parse 12 ''l2:abd1:zi-5e1:aleeexyz!'' =
     Some (Inr (BList [BString ''ab'', BDict [(''a'', BList []), (''z'', BInt (- 5))]]))"
  by (simp add: decoder_eval fuel_eval)

theorem decode_ignores_trailing_bytes_witness:
  "spec_valid (TList [TStr ''ab'', TDict [(''z'', TInt (- 5)), (''a'', TList [])]])
   \<and> spec_encode (TList [TStr ''ab'', TDict [(''z'', TInt (- 5)), (''a'', TList [])]])
       = ''l2:abd1:zi-5e1:aleee''
   \<and> returns (\<lambda>f. parse f ''l2:abd1:zi-5e1:aleeexyz!'')
       (Inr (BList [BString ''ab'', BDict [(''a'', BList []), (''z'', BInt (- 5))]]))
   \<and> returns (\<lambda>f. parse f ''l2:abd1:zi-5e1:aleee'')
       (Inr (BList [BString ''ab'', BDict [(''a'', BList []), (''z'', BInt (- 5))]]))
   \<and> parse 12 ''l2:abd1:zi-5e1:aleeexyz!'' =
       Some (Inr (BList [BString ''ab'', BDict [(''a'', BList []), (''z'', BInt (- 5))]]))"
proof -
  have enc: "spec_encode (TList [TStr ''ab'', TDict [(''z'', TInt (- 5)), (''a'', TList [])]])
      = ''l2:abd1:zi-5e1:aleee''"
    by code_simp
  have val: "spec_value (TList [TStr ''ab'', TDict [(''z'', TInt (- 5)), (''a'', TList [])]])
      = BList [BString ''ab'', BDict [(''a'', BList []), (''z'', BInt (- 5))]]"
    by simp
  have ok: "spec_valid (TList [TStr ''ab'', TDict [(''z'', TInt (- 5)), (''a'', TList [])]])"
    by simp
  show ?thesis
    using decode_ignores_trailing_bytes
      [of "TList [TStr ''ab'', TDict [(''z'', TInt (- 5)), (''a'', TList [])]]" "''xyz!''"]
      decode_trailing_example ok
    unfolding enc val by simp
qed

section \<open>Dictionaries\<close>

lemma spec_entries_keys: "map fst (spec_entries kts) = map fst kts"
  by (induction kts) (auto simp add: spec_entries_def)

lemma dict_of_entries:
  assumes "distinct (map fst kts)"
  shows "keys_ascending (map_insert_all (spec_entries kts) [])"
    and "set (map_insert_all (spec_entries kts) []) = set (spec_entries kts)"
proof -
  show "keys_ascending (map_insert_all (spec_entries kts) [])"
    using keys_ascending_Nil by (rule map_insert_all_ascending)
  from assms have "distinct (map fst (spec_entries kts))" by (simp add: spec_entries_keys)
  then show "set (map_insert_all (spec_entries kts) []) = set (spec_entries kts)"
    using map_insert_all_set [of "spec_entries kts" "[]"] by simp
qed

lemma ascending_keys_same_order:
  assumes "keys_ascending d" and "set (map fst d) = set ks"
  shows "map fst d = ks \<longleftrightarrow> sorted_wrt string_less ks"
proof
  assume "map fst d = ks"
  with assms(1) show "sorted_wrt string_less ks" by (simp add: keys_ascending_def)
next
  assume "sorted_wrt string_less ks"
  then have "sorted_wrt (<) ks" by (simp add: string_less_iff [abs_def])
  moreover from assms(1) have "sorted_wrt (<) (map fst d)"
    by (simp add: keys_ascending_def string_less_iff [abs_def])
  ultimately show "map fst d = ks"
    using assms(2) by (metis strict_sorted_equal)
qed

text \<open>
  Claim C1, as the code has it. For every valid dictionary encoding, whatever the order
  in which its keys appear in the bytes, the decoded dictionary iterates in ascending key
  order (bytes compared as unsigned values), over exactly the entries of the encoding:
  \<^verbatim>\<open>Dict\<close> is a \<^verbatim>\<open>std::map\<close>, which keeps its entries sorted. The order of iteration is the
  order of appearance exactly when the keys appear in ascending order.
\<close>

theorem decode_dict_ascending_keys:
  assumes "spec_valid (TDict kts)" and "length (spec_encode (TDict kts)) < 2 ^ 64"
  shows "\<exists>d. returns (\<lambda>f. parse f (spec_encode (TDict kts))) (Inr (BDict d))
     \<and> sorted_wrt string_less (map fst d)
     \<and> set d = set (map (\<lambda>(k, t). (k, spec_value t)) kts)
     \<and> (map fst d = map fst kts \<longleftrightarrow> sorted_wrt string_less (map fst kts))"
proof -
  define d where "d = map_insert_all (spec_entries kts) []"
  from assms(1) have dist: "distinct (map fst kts)" by simp
  have asc: "keys_ascending d" and set: "set d = set (spec_entries kts)"
    unfolding d_def using dict_of_entries [OF dist] by simp_all
  from set have "set (map fst d) = set (map fst kts)"
    by (simp add: spec_entries_keys [symmetric])
  with asc have order: "map fst d = map fst kts \<longleftrightarrow> sorted_wrt string_less (map fst kts)"
    by (rule ascending_keys_same_order)
  from assms(2) have "length (spec_encode (TDict kts) @ []) < 2 ^ 64" by simp
  with assms(1) have "returns (\<lambda>f. parse f (spec_encode (TDict kts) @ [])) (Inr (spec_value (TDict kts)))"
    by (rule parse_spec_encode)
  then have "returns (\<lambda>f. parse f (spec_encode (TDict kts))) (Inr (BDict d))"
    by (simp add: d_def spec_value_TDict del: spec_encode.simps spec_value.simps)
  with asc set order show ?thesis
    unfolding keys_ascending_def spec_entries_def by blast
qed

lemma dict_order_example:
  "parse 5 ''d1:bi1e1:ai2ee'' = Some (Inr (BDict [(''a'', BInt 2), (''b'', BInt 1)]))"
  by (simp add: decoder_eval fuel_eval)

theorem decode_dict_ascending_keys_witness:
  "spec_valid (TDict [(''b'', TInt 1), (''a'', TInt 2)])
   \<and> spec_encode (TDict [(''b'', TInt 1), (''a'', TInt 2)]) = ''d1:bi1e1:ai2ee''
   \<and> (\<exists>d. returns (\<lambda>f. parse f ''d1:bi1e1:ai2ee'') (Inr (BDict d))
         \<and> sorted_wrt string_less (map fst d)
         \<and> set d = {(''b'', BInt 1), (''a'', BInt 2)}
         \<and> map fst d \<noteq> [''b'', ''a''])
   \<and> parse 5 ''d1:bi1e1:ai2ee'' = Some (Inr (BDict [(''a'', BInt 2), (''b'', BInt 1)]))"
proof -
  have enc: "spec_encode (TDict [(''b'', TInt 1), (''a'', TInt 2)]) = ''d1:bi1e1:ai2ee''"
    by code_simp
  have ok: "spec_valid (TDict [(''b'', TInt 1), (''a'', TInt 2)])"
    by simp
  have "\<exists>d. returns (\<lambda>f. parse f ''d1:bi1e1:ai2ee'') (Inr (BDict d))
         \<and> sorted_wrt string_less (map fst d)
         \<and> set d = {(''b'', BInt 1), (''a'', BInt 2)}
         \<and> map fst d \<noteq> [''b'', ''a'']"
    using decode_dict_ascending_keys [of "[(''b'', TInt 1), (''a'', TInt 2)]"]
    unfolding enc by simp
  with enc ok dict_order_example show ?thesis by blast
qed

text \<open>
  The claim as it is written fails on every encoding whose keys are not in ascending
  order: the dictionary \<^verbatim>\<open>d1:bi1e1:ai2ee\<close> has \<open>b\<close> before \<open>a\<close>, and the decoded dictionary
  iterates \<open>a\<close> before \<open>b\<close>.
\<close>

theorem decode_dict_order_counterexample:
  "parse 5 ''d1:bi1e1:ai2ee'' = Some (Inr (BDict [(''a'', BInt 2), (''b'', BInt 1)]))
   \<and> map fst [(''a'', BInt 2), (''b'', BInt 1)] \<noteq> [''b'', ''a'']"
  by (simp add: dict_order_example)

lemma spec_encode_entries_append:
  "spec_encode_entries (kts1 @ kts2) = spec_encode_entries kts1 @ spec_encode_entries kts2"
  by (simp add: spec_encode_entries_def)

lemma first_repeated_key:
  assumes "\<not> distinct (map fst kts)"
  obtains kts1 k t kts2 where "kts = kts1 @ (k, t) # kts2"
    and "distinct (map fst kts1)" and "k \<in> fst ` set kts1"
proof -
  from assms obtain xs y ys where y: "y \<in> set xs" and xs: "distinct xs"
    and split: "map fst kts = xs @ y # ys"
    using not_distinct_conv_prefix [of "map fst kts"] by blast
  from split obtain kts1 rest where kts: "kts = kts1 @ rest" and m1: "xs = map fst kts1"
    and m2: "y # ys = map fst rest"
    by (auto simp add: map_eq_append_conv)
  from m2 obtain e kts2 where rest: "rest = e # kts2" and e: "fst e = y"
    by (cases rest) auto
  obtain k t where kt: "e = (k, t)" by (cases e)
  show ?thesis
  proof (rule that [of kts1 k t kts2])
    show "kts = kts1 @ (k, t) # kts2" by (simp add: kts rest kt)
    show "distinct (map fst kts1)" using xs by (simp add: m1)
    show "k \<in> fst ` set kts1" using y e by (simp add: m1 kt)
  qed
qed

lemma parseValue_dict_duplicate_key:
  assumes valid: "list_all (\<lambda>(k, t). spec_valid t) kts"
    and dup: "\<not> distinct (map fst kts)"
    and small: "length (spec_encode (TDict kts) @ rest) < 2 ^ 64"
  shows "returns (\<lambda>f. parseValue f (spec_encode (TDict kts) @ rest) 0) (Inl DuplicateKey)"
proof -
  from dup obtain kts1 k t kts2 where kts: "kts = kts1 @ (k, t) # kts2"
    and dist1: "distinct (map fst kts1)" and kin: "k \<in> fst ` set kts1"
    by (rule first_repeated_key)
  define tail where "tail = spec_encode_entries kts2 @ CHR ''e'' # rest"
  define input where "input = spec_encode (TDict kts) @ rest"
  define pre1 where "pre1 = ''d'' @ spec_encode_entries kts1"
  define pre2 where "pre2 = pre1 @ spec_encode_string k"
  define acc1 where "acc1 = map_insert_all (spec_entries kts1) []"
  have in0: "input = ''d'' @ spec_encode_entries kts1 @ (spec_encode_string k @ spec_encode t @ tail)"
    by (simp add: input_def spec_encode_TDict kts spec_encode_entries_append
        spec_encode_entries_Cons tail_def del: spec_encode.simps)
  have in1: "input = pre1 @ spec_encode_string k @ (spec_encode t @ tail)"
    by (simp add: in0 pre1_def)
  have in2: "input = pre2 @ spec_encode t @ tail"
    by (simp add: in1 pre2_def)
  from small have len: "length input < 2 ^ 64" by (simp add: input_def)
  from valid have v1: "\<forall>(k, t) \<in> set kts1. spec_valid t" and vt: "spec_valid t"
    by (simp_all add: kts list_all_iff)
  obtain c tl where hd: "spec_encode_string k = c # tl" and c: "isdigit c"
    using spec_encode_string_head by blast
  have pos: "length pre1 < length input" by (simp add: in1 hd)
  have dig: "isdigit (input ! length pre1)" by (simp add: in1 hd c)
  have key: "parseString input (length pre1) = Inr (k, length pre2)"
    unfolding in1 pre2_def using len by (simp add: parseString_spec_encode_string in1)
  have val: "returns (\<lambda>f. parseValue f input (length pre2))
      (Inr (spec_value t, length pre2 + length (spec_encode t)))"
    unfolding in2 using vt len by (intro parseValue_spec_encode) (simp_all add: in2)
  have asc: "keys_ascending acc1" and set1: "set acc1 = set (spec_entries kts1)"
    unfolding acc1_def using dict_of_entries [OF dist1] by simp_all
  from kin have "k \<in> fst ` set acc1"
    unfolding set1 using spec_entries_keys [of kts1] by (metis list.set_map)
  with asc have none: "map_insert k (spec_value t) acc1 = None" by (rule map_insert_None)
  have stop: "returns (\<lambda>f. parseDict_loop f input (length pre1) acc1) (Inl DuplicateKey)"
    using pos dig key val none by (rule parseDict_loop_duplicate)
  have "returns (\<lambda>f. parseDict_loop f
      (''d'' @ spec_encode_entries kts1 @ (spec_encode_string k @ spec_encode t @ tail))
      (length ''d'') []) (Inl DuplicateKey)"
  proof (rule parseDict_loop_entries [OF _ _ keys_ascending_Nil dist1])
    fix k' t' pre' rest'
    assume "(k', t') \<in> set kts1" and "length (pre' @ spec_encode t' @ rest') < 2 ^ 64"
    with v1 show "returns (\<lambda>f. parseValue f (pre' @ spec_encode t' @ rest') (length pre'))
        (Inr (spec_value t', length pre' + length (spec_encode t')))"
      by (intro parseValue_spec_encode) auto
  next
    from len show "length (''d'' @ spec_encode_entries kts1 @
        (spec_encode_string k @ spec_encode t @ tail)) < 2 ^ 64"
      by (simp only: in0)
  next
    show "fst ` set [] \<inter> fst ` set kts1 = {}" by simp
  next
    from stop show "returns (\<lambda>f. parseDict_loop f
        (''d'' @ spec_encode_entries kts1 @ (spec_encode_string k @ spec_encode t @ tail))
        (length ''d'' + length (spec_encode_entries kts1))
        (map_insert_all (spec_entries kts1) [])) (Inl DuplicateKey)"
      by (simp add: in0 pre1_def acc1_def)
  qed
  then have loop: "returns (\<lambda>f. parseDict_loop f input (0 + 1) []) (Inl DuplicateKey)"
    by (simp add: in0)
  have "returns (\<lambda>f. parseValue f input 0) (Inl DuplicateKey)"
    using parseValue_dict [OF _ _ loop] by (simp add: in0)
  then show ?thesis by (simp only: input_def)
qed

lemma parseValue_dict_key_not_string:
  assumes valid: "spec_valid (TDict kts)"
    and c: "\<not> isdigit c" "c \<noteq> CHR ''e''"
    and small: "length (CHR ''d'' # spec_encode_entries kts @ c # rest) < 2 ^ 64"
  shows "returns (\<lambda>f. parseValue f (CHR ''d'' # spec_encode_entries kts @ c # rest) 0)
           (Inl DictKeyNotString)"
proof -
  define input where "input = CHR ''d'' # spec_encode_entries kts @ c # rest"
  define pre1 where "pre1 = ''d'' @ spec_encode_entries kts"
  have in0: "input = ''d'' @ spec_encode_entries kts @ c # rest"
    by (simp add: input_def)
  have in1: "input = pre1 @ c # rest"
    by (simp add: in0 pre1_def)
  from small have len: "length input < 2 ^ 64" by (simp add: input_def)
  from valid have v: "\<forall>(k, t) \<in> set kts. spec_valid t" and dist: "distinct (map fst kts)"
    by (simp_all add: list_all_iff)
  have stop: "returns (\<lambda>f. parseDict_loop f input (length pre1)
      (map_insert_all (spec_entries kts) [])) (Inl DictKeyNotString)"
    using c by (intro parseDict_loop_not_string) (simp_all add: in1)
  have "returns (\<lambda>f. parseDict_loop f (''d'' @ spec_encode_entries kts @ c # rest)
      (length ''d'') []) (Inl DictKeyNotString)"
  proof (rule parseDict_loop_entries [OF _ _ keys_ascending_Nil dist])
    fix k' t' pre' rest'
    assume "(k', t') \<in> set kts" and "length (pre' @ spec_encode t' @ rest') < 2 ^ 64"
    with v show "returns (\<lambda>f. parseValue f (pre' @ spec_encode t' @ rest') (length pre'))
        (Inr (spec_value t', length pre' + length (spec_encode t')))"
      by (intro parseValue_spec_encode) auto
  next
    from len show "length (''d'' @ spec_encode_entries kts @ c # rest) < 2 ^ 64"
      by (simp only: in0)
  next
    show "fst ` set [] \<inter> fst ` set kts = {}" by simp
  next
    from stop show "returns (\<lambda>f. parseDict_loop f (''d'' @ spec_encode_entries kts @ c # rest)
        (length ''d'' + length (spec_encode_entries kts))
        (map_insert_all (spec_entries kts) [])) (Inl DictKeyNotString)"
      by (simp add: in0 pre1_def)
  qed
  then have loop: "returns (\<lambda>f. parseDict_loop f input (0 + 1) []) (Inl DictKeyNotString)"
    by (simp add: in0)
  have "returns (\<lambda>f. parseValue f input 0) (Inl DictKeyNotString)"
    using parseValue_dict [OF _ _ loop] by (simp add: in0)
  then show ?thesis by (simp only: input_def)
qed

text \<open>
  Claim C6. Every dictionary encoding in which a key appears twice fails, with "duplicate
  dictionary key" (the values are valid encodings, so that the decoder reaches the second
  appearance). Every dictionary encoding in which, after valid entries, the place of a key
  holds a byte that is not a digit (and not the closing \<open>e\<close>) fails, with "key must be
  string". Bytes after the dictionary play no part.
\<close>

theorem decode_dict_bad_key:
  "(list_all (\<lambda>(k, t). spec_valid t) kts \<and> \<not> distinct (map fst kts)
      \<and> length (spec_encode (TDict kts) @ rest) < 2 ^ 64 \<longrightarrow>
        returns (\<lambda>f. parse f (spec_encode (TDict kts) @ rest)) (Inl DuplicateKey))
   \<and> (spec_valid (TDict kts) \<and> \<not> isdigit c \<and> c \<noteq> CHR ''e''
      \<and> length (CHR ''d'' # spec_encode_entries kts @ c # rest) < 2 ^ 64 \<longrightarrow>
        returns (\<lambda>f. parse f (CHR ''d'' # spec_encode_entries kts @ c # rest))
          (Inl DictKeyNotString))"
proof (intro conjI impI)
  assume "list_all (\<lambda>(k, t). spec_valid t) kts \<and> \<not> distinct (map fst kts)
      \<and> length (spec_encode (TDict kts) @ rest) < 2 ^ 64"
  then have "returns (\<lambda>f. parseValue f (spec_encode (TDict kts) @ rest) 0) (Inl DuplicateKey)"
    by (intro parseValue_dict_duplicate_key) simp_all
  from parse_returns [OF this]
  show "returns (\<lambda>f. parse f (spec_encode (TDict kts) @ rest)) (Inl DuplicateKey)"
    by simp
next
  assume "spec_valid (TDict kts) \<and> \<not> isdigit c \<and> c \<noteq> CHR ''e''
      \<and> length (CHR ''d'' # spec_encode_entries kts @ c # rest) < 2 ^ 64"
  then have "returns (\<lambda>f. parseValue f (CHR ''d'' # spec_encode_entries kts @ c # rest) 0)
      (Inl DictKeyNotString)"
    by (intro parseValue_dict_key_not_string) simp_all
  from parse_returns [OF this]
  show "returns (\<lambda>f. parse f (CHR ''d'' # spec_encode_entries kts @ c # rest))
      (Inl DictKeyNotString)"
    by simp
qed

lemma dict_bad_key_examples:
  "parse 5 ''d1:ai1e1:ai2ee'' = Some (Inl DuplicateKey)"
  "parse 5 ''di1ei2ee'' = Some (Inl DictKeyNotString)"
  by (simp_all add: decoder_eval fuel_eval)

theorem decode_dict_bad_key_witness:
  "returns (\<lambda>f. parse f ''d1:ai1e1:ai2ee'') (Inl DuplicateKey)
   \<and> returns (\<lambda>f. parse f ''di1ei2ee'') (Inl DictKeyNotString)
   \<and> returns (\<lambda>f. parse f ''d1:ai1ei2ei3ee'') (Inl DictKeyNotString)
   \<and> parse 5 ''d1:ai1e1:ai2ee'' = Some (Inl DuplicateKey)
   \<and> parse 5 ''di1ei2ee'' = Some (Inl DictKeyNotString)"
proof -
  have enc: "spec_encode (TDict [(''a'', TInt 1), (''a'', TInt 2)]) = ''d1:ai1e1:ai2ee''"
    by code_simp
  have enc1: "spec_encode_entries [(''a'', TInt 1)] = ''1:ai1e''"
    unfolding spec_encode_entries_def by code_simp
  have "returns (\<lambda>f. parse f ''d1:ai1e1:ai2ee'') (Inl DuplicateKey)"
    using decode_dict_bad_key [of "[(''a'', TInt 1), (''a'', TInt 2)]" "[]" "CHR ''i''"]
    unfolding enc by simp
  moreover have "returns (\<lambda>f. parse f ''di1ei2ee'') (Inl DictKeyNotString)"
    using decode_dict_bad_key [of "[]" "''1ei2ee''" "CHR ''i''"]
    by (simp add: spec_encode_entries_def isdigit_def)
  moreover have "returns (\<lambda>f. parse f ''d1:ai1ei2ei3ee'') (Inl DictKeyNotString)"
    using decode_dict_bad_key [of "[(''a'', TInt 1)]" "''2ei3ee''" "CHR ''i''"]
    unfolding enc1 by (simp add: isdigit_def)
  ultimately show ?thesis using dict_bad_key_examples by blast
qed

end
